theory Spec2Isabelle
  imports Complex_Main
begin

section \<open>Python values used by the notebook\<close>

text \<open>
  The notebook \<^verbatim>\<open>model_hugf.ipynb\<close> is Python. Exceptions are values of
  \<open>error\<close>; a function that can raise returns \<open>error + 'a\<close> with \<open>Inl\<close> the exception.
  A \<^verbatim>\<open>dict\<close> is an association list in insertion order: assigning to a key that is
  present replaces its value in place, assigning to a new key appends it.
\<close>

datatype error = AssertionError | IndexError | KeyError | RuntimeError | TypeError | ValueError

type_synonym ('k, 'v) dict = "('k \<times> 'v) list"

fun dict_set :: "('k, 'v) dict \<Rightarrow> 'k \<Rightarrow> 'v \<Rightarrow> ('k, 'v) dict" where
  "dict_set [] k v = [(k, v)]"
| "dict_set ((k', v') # d) k v =
     (if k' = k then (k', v) # d else (k', v') # dict_set d k v)"

text \<open>\<^verbatim>\<open>d[k]\<close> raises KeyError on a missing key; \<^verbatim>\<open>d.get(k, default)\<close> does not.\<close>

definition getitem :: "('k, 'v) dict \<Rightarrow> 'k \<Rightarrow> error + 'v" where
  "getitem d k = (case map_of d k of None \<Rightarrow> Inl KeyError | Some v \<Rightarrow> Inr v)"

definition dict_get :: "('k, 'v) dict \<Rightarrow> 'k \<Rightarrow> 'v \<Rightarrow> 'v" where
  "dict_get d k dflt = (case map_of d k of None \<Rightarrow> dflt | Some v \<Rightarrow> v)"

text \<open>\<^verbatim>\<open>enumerate(xs)\<close>: the pairs (index, element), indices as Python ints.\<close>

definition py_enumerate :: "'a list \<Rightarrow> (int \<times> 'a) list" where
  "py_enumerate xs = zip (map int [0..<length xs]) xs"

section \<open>SMILESTokenizerHF\<close>

subsection \<open>The vocabulary built by \<^verbatim>\<open>__init__\<close>\<close>

definition tokens :: "string list" where
  "tokens =
    [''#'', ''%10'', ''%11'', ''%12'', ''('', '')'', ''-'', ''1'', ''2'', ''3'', ''4''] @
    [''5'', ''6'', ''7'', ''8'', ''9'', ''<'', ''='', ''B'', ''Br'', ''C'', ''Cl'', ''F'',
     ''I'', ''N'', ''O'', ''P'', ''S''] @
    [''[B-]'', ''[BH-]'', ''[BH2-]'', ''[BH3-]'', ''[B]'', ''[C+]'', ''[C-]'', ''[CH+]'',
     ''[CH-]'', ''[CH2+]'', ''[CH2]'', ''[CH]'', ''[F+]'', ''[H]'', ''[I+]'', ''[IH2]'',
     ''[IH]'', ''[N+]'', ''[N-]''] @
    [''[NH+]'', ''[NH-]'', ''[NH2+]'', ''[NH3+]'', ''[N]'', ''[O+]'', ''[O-]'', ''[OH+]'',
     ''[O]'', ''[P+]'', ''[PH+]'', ''[PH2+]'', ''[PH]'', ''[S+]'', ''[S-]'', ''[SH+]'',
     ''[SH]'', ''[Se+]''] @
    [''[SeH+]'', ''[SeH]'', ''[Se]'', ''[Si-]'', ''[SiH-]'', ''[SiH2]'', ''[SiH]'', ''[Si]'',
     ''[b-]'', ''[bH-]'', ''[c+]'', ''[c-]'', ''[cH+]'', ''[cH-]'', ''[n+]'', ''[n-]'',
     ''[nH+]'', ''[nH]''] @
    [''[o+]'', ''[s+]'', ''[sH+]'', ''[se+]'', ''[se]'', ''b'', ''c'', ''n'', ''o'', ''p'', ''s'']"

definition special_tokens_list :: "string list" where
  "special_tokens_list = [''<BOS>'', ''<EOS>'', ''<PAD>'', ''<UNK>'']"

definition all_tokens :: "string list" where
  "all_tokens = special_tokens_list @ tokens"

text \<open>\<^verbatim>\<open>self.vocab = {token: idx for idx, token in enumerate(self.all_tokens)}\<close>\<close>

definition vocab :: "(string, int) dict" where
  "vocab = fold (\<lambda>(idx, token) d. dict_set d token idx) (py_enumerate all_tokens) []"

text \<open>\<^verbatim>\<open>self.ids_to_tokens = {idx: token for token, idx in self.vocab.items()}\<close>\<close>

definition ids_to_tokens :: "(int, string) dict" where
  "ids_to_tokens = fold (\<lambda>(token, idx) d. dict_set d idx token) vocab []"

subsection \<open>The regular expression\<close>

text \<open>
  \<^verbatim>\<open>self.pattern\<close> is one ordered alternation; every alternative is of one of four
  shapes. Strings are lists of 8-bit characters, so the model is that of the tokenizer on
  ASCII text (on which \<^verbatim>\<open>\d\<close> is \<^verbatim>\<open>[0-9]\<close>).
  \<^item> \<open>Ring\<close>: \<^verbatim>\<open>%\d{2}\<close>, a percent sign and two digits;
  \<^item> \<open>Bracket\<close>: \<^verbatim>\<open>\[[^\]]+\]\<close>, an opening bracket, one or more characters
    other than the closing bracket, and the closing bracket;
  \<^item> \<open>Lit p\<close>: the literal text \<open>p\<close>;
  \<^item> \<open>Class cs\<close>: one character of the class \<open>cs\<close>.
\<close>

datatype alt = Ring | Bracket | Lit string | Class string

definition is_digit :: "char \<Rightarrow> bool" where
  "is_digit c = (c \<in> set ''0123456789'')"

fun strip_prefix :: "string \<Rightarrow> string \<Rightarrow> string option" where
  "strip_prefix [] s = Some s"
| "strip_prefix (p # ps) [] = None"
| "strip_prefix (p # ps) (c # cs) = (if p = c then strip_prefix ps cs else None)"

text \<open>
  \<open>match_alt a s\<close> matches alternative \<open>a\<close> at the start of \<open>s\<close> and returns the
  matched text and the rest of \<open>s\<close>. The greedy \<^verbatim>\<open>[^\]]+\<close> runs to the first closing
  bracket (or to the end of the text, where the match fails: giving characters back
  cannot produce a closing bracket).
\<close>

fun match_alt :: "alt \<Rightarrow> string \<Rightarrow> (string \<times> string) option" where
  "match_alt Ring s =
     (case s of
        p # d1 # d2 # rest \<Rightarrow>
          if p = CHR ''%'' \<and> is_digit d1 \<and> is_digit d2 then Some ([p, d1, d2], rest) else None
      | _ \<Rightarrow> None)"
| "match_alt Bracket s =
     (case s of
        [] \<Rightarrow> None
      | c # cs \<Rightarrow>
          if c = CHR ''[''
          then (let body = takeWhile (\<lambda>x. x \<noteq> CHR '']'') cs;
                    rest = dropWhile (\<lambda>x. x \<noteq> CHR '']'') cs
                in if body \<noteq> [] \<and> rest \<noteq> [] then Some (c # body @ [hd rest], tl rest)
                   else None)
          else None)"
| "match_alt (Lit p) s = map_option (\<lambda>rest. (p, rest)) (strip_prefix p s)"
| "match_alt (Class cs) s =
     (case s of [] \<Rightarrow> None | c # rest \<Rightarrow> if c \<in> set cs then Some ([c], rest) else None)"

text \<open>
  \<^verbatim>\<open>%\d{2}|\[[^\]]+\]|Cl|Br|Si|Se|As|B|C|N|O|F|P|S|I|[cnospb]|[0-9]|\(|\)|=|#|-|\/|\\|\.|<\<close>
\<close>

definition pattern :: "alt list" where
  "pattern =
    [Ring, Bracket, Lit ''Cl'', Lit ''Br'', Lit ''Si'', Lit ''Se'', Lit ''As'',
     Lit ''B'', Lit ''C'', Lit ''N'', Lit ''O'', Lit ''F'', Lit ''P'', Lit ''S'', Lit ''I'',
     Class ''cnospb'', Class ''0123456789'',
     Lit ''('', Lit '')'', Lit ''='', Lit ''#'', Lit ''-'', Lit ''/'', Lit [CHR 0x5C],
     Lit ''.'', Lit ''<'']"

text \<open>An alternation takes its first alternative that matches.\<close>

fun first_match :: "alt list \<Rightarrow> string \<Rightarrow> (string \<times> string) option" where
  "first_match [] s = None"
| "first_match (a # as) s =
     (case match_alt a s of Some r \<Rightarrow> Some r | None \<Rightarrow> first_match as s)"

text \<open>Every alternative of the pattern consumes at least one character.\<close>

lemma strip_prefix_length: "strip_prefix p s = Some r \<Longrightarrow> length r + length p = length s"
  by (induction p s rule: strip_prefix.induct) (auto split: if_splits)

lemma match_alt_shorter:
  assumes "match_alt a s = Some (t, r)" and "\<forall>p. a = Lit p \<longrightarrow> p \<noteq> []"
  shows "length r < length s"
proof (cases a)
  case Ring
  with assms show ?thesis by (auto split: list.splits if_splits)
next
  case Bracket
  have "length (tl (dropWhile P xs)) \<le> length xs" for P and xs :: string
    by (metis diff_le_self le_trans length_dropWhile_le length_tl)
  with assms Bracket show ?thesis
    by (auto split: list.splits if_splits simp: Let_def less_Suc_eq_le)
next
  case (Lit p)
  with assms show ?thesis using strip_prefix_length[of p s r] by (cases p) auto
next
  case (Class cs)
  with assms show ?thesis by (auto split: list.splits if_splits)
qed

lemma first_match_shorter:
  "first_match as s = Some (t, r) \<Longrightarrow> \<forall>p. Lit p \<in> set as \<longrightarrow> p \<noteq> [] \<Longrightarrow> length r < length s"
proof (induction as)
  case Nil
  then show ?case by simp
next
  case (Cons a as)
  show ?case
  proof (cases "match_alt a s")
    case None
    with Cons show ?thesis by auto
  next
    case (Some x)
    with Cons.prems have "match_alt a s = Some (t, r)" by simp
    moreover from Cons.prems(2) have "\<forall>p. a = Lit p \<longrightarrow> p \<noteq> []" by auto
    ultimately show ?thesis by (rule match_alt_shorter)
  qed
qed

lemma pattern_shorter: "first_match pattern s = Some (t, r) \<Longrightarrow> length r < length s"
  by (erule first_match_shorter) (simp add: pattern_def)

text \<open>
  \<^verbatim>\<open>self.pattern.findall(text)\<close>: scan from the left; where the alternation matches,
  emit the matched text and go on behind it; where it does not, skip one character.
  The pattern has no group, so the result is the list of the matched texts.
\<close>

function findall :: "string \<Rightarrow> string list" where
  "findall [] = []"
| "findall (c # cs) =
     (case first_match pattern (c # cs) of
        Some (t, rest) \<Rightarrow> t # findall rest
      | None \<Rightarrow> findall cs)"
  by pat_completeness auto
termination
  by (relation "measure length") (auto dest: pattern_shorter)

declare findall.simps [simp del]

subsection \<open>The methods of the tokenizer\<close>

definition tokenize :: "string \<Rightarrow> string list" where
  "tokenize text = findall text"

text \<open>
  \<^verbatim>\<open>self.vocab.get(token, self.vocab['<UNK>'])\<close>: the default is an argument, so the
  subscript is evaluated (and could raise) before the lookup.
\<close>

definition convert_token_to_id :: "string \<Rightarrow> error + int" where
  "convert_token_to_id token =
     (case getitem vocab ''<UNK>'' of
        Inl e \<Rightarrow> Inl e
      | Inr unk \<Rightarrow> Inr (dict_get vocab token unk))"

definition convert_id_to_token :: "int \<Rightarrow> string" where
  "convert_id_to_token index = dict_get ids_to_tokens index ''<UNK>''"

definition convert_tokens_to_string :: "string list \<Rightarrow> string" where
  "convert_tokens_to_string toks = concat (filter (\<lambda>t. t \<notin> set special_tokens_list) toks)"

text \<open>
  \<^verbatim>\<open>def build_inputs_with_special_tokens(self, token_ids)\<close> has one parameter after
  \<^verbatim>\<open>self\<close>. A call binds its positional arguments to the parameters before the body runs
  and raises TypeError when there are more or fewer of them, so the method is a function
  of the list of the arguments of the call. An argument is a list of ids or \<^verbatim>\<open>None\<close>;
  the sum \<^verbatim>\<open>[bos] + None\<close> is a TypeError as well.
\<close>

definition build_inputs_with_special_tokens :: "int list option list \<Rightarrow> error + int list" where
  "build_inputs_with_special_tokens args =
     (case args of
        [token_ids] \<Rightarrow>
          (case getitem vocab ''<BOS>'' of
             Inl e \<Rightarrow> Inl e
           | Inr bos \<Rightarrow>
               (case token_ids of
                  None \<Rightarrow> Inl TypeError
                | Some ids \<Rightarrow>
                    (case getitem vocab ''<EOS>'' of
                       Inl e \<Rightarrow> Inl e
                     | Inr eos \<Rightarrow> Inr ([bos] @ ids @ [eos]))))
      | _ \<Rightarrow> Inl TypeError)"

text \<open>A list comprehension over a function that can raise stops at the first exception.\<close>

fun map_result :: "('a \<Rightarrow> error + 'b) \<Rightarrow> 'a list \<Rightarrow> error + 'b list" where
  "map_result f [] = Inr []"
| "map_result f (x # xs) =
     (case f x of
        Inl e \<Rightarrow> Inl e
      | Inr y \<Rightarrow> (case map_result f xs of Inl e \<Rightarrow> Inl e | Inr ys \<Rightarrow> Inr (y # ys)))"

text \<open>
  The class defines no \<^verbatim>\<open>encode\<close>: \<^verbatim>\<open>tokenizer.encode(text)\<close> is the method it inherits
  from \<^verbatim>\<open>PreTrainedTokenizer\<close>. The inherited method splits the text with \<^verbatim>\<open>_tokenize\<close>,
  converts every token with \<^verbatim>\<open>_convert_token_to_id\<close> and, adding the special tokens by
  default, calls \<^verbatim>\<open>self.build_inputs_with_special_tokens(ids, pair_ids)\<close>: two arguments,
  the second one \<^verbatim>\<open>None\<close> when a single text is encoded.
\<close>

definition encode :: "string \<Rightarrow> error + int list" where
  "encode text =
     (case map_result convert_token_to_id (tokenize text) of
        Inl e \<Rightarrow> Inl e
      | Inr ids \<Rightarrow> build_inputs_with_special_tokens [Some ids, None])"

section \<open>MolGPTConfig\<close>

text \<open>
  The hyperparameters of the last cell that defines the model. Sizes are natural
  numbers; the padding index is compared with token ids and is a Python int.
\<close>

record MolGPTConfig =
  vocab_size :: nat
  embedding_dim :: nat
  padding_idx :: int
  n_heads :: nat
  feedforward_dim :: nat
  n_layers :: nat
  desc_size :: nat
  max_position_embeddings :: nat
  hidden_dropout_prob :: real

text \<open>\<^verbatim>\<open>MolGPTConfig()\<close>: the defaults of \<^verbatim>\<open>__init__\<close>.\<close>

definition default_config :: MolGPTConfig where
  "default_config =
     \<lparr>vocab_size = 100, embedding_dim = 256, padding_idx = 0, n_heads = 8,
      feedforward_dim = 512, n_layers = 6, desc_size = 166,
      max_position_embeddings = 512, hidden_dropout_prob = 1 / 10\<rparr>"

section \<open>Tensors\<close>

text \<open>
  A tensor of rank one is a list, a batch is the list of its examples, and all rows of a
  tensor have the same length. Learned weights are real numbers, indexed by row and
  column; the shapes are those the constructors take from the configuration. The
  arithmetic is that of the real numbers (no rounding, no overflow). Where it is
  undefined (the quotient 0/0) the framework computes NaN, and a value that can be NaN is
  a \<open>float\<close>. Dropout is the identity: the model is the network in evaluation mode,
  as \<^verbatim>\<open>generate\<close> sets it.
\<close>

type_synonym vec = "real list"

datatype float = NaN | Val real

text \<open>The real entries of a tensor, when none of its entries is NaN.\<close>

fun reals :: "float list \<Rightarrow> vec option" where
  "reals [] = Some []"
| "reals (NaN # xs) = None"
| "reals (Val r # xs) = map_option ((#) r) (reals xs)"

fun reals2 :: "float list list \<Rightarrow> vec list option" where
  "reals2 [] = Some []"
| "reals2 (v # vs) =
     (case reals v of
        None \<Rightarrow> None
      | Some r \<Rightarrow> map_option ((#) r) (reals2 vs))"

definition floats :: "vec \<Rightarrow> float list" where
  "floats v = map Val v"

definition floats2 :: "vec list \<Rightarrow> float list list" where
  "floats2 m = map floats m"

text \<open>
  \<^verbatim>\<open>nn.Embedding(num_embeddings, embedding_dim)\<close> applied to one index: the row of the
  weight matrix, and IndexError for an index outside of it.
\<close>

definition nn_embedding :: "nat \<Rightarrow> nat \<Rightarrow> (nat \<Rightarrow> nat \<Rightarrow> real) \<Rightarrow> int \<Rightarrow> error + vec" where
  "nn_embedding num_embeddings width w idx =
     (if 0 \<le> idx \<and> idx < int num_embeddings then Inr (map (w (nat idx)) [0..<width])
      else Inl IndexError)"

text \<open>
  \<^verbatim>\<open>nn.Linear(in_features, out_features)\<close> applied to one vector of \<open>in_features\<close>
  entries: \<open>y\<^sub>o = \<Sum>\<^sub>i w\<^sub>o\<^sub>i x\<^sub>i + b\<^sub>o\<close>.
\<close>

definition nn_linear :: "nat \<Rightarrow> nat \<Rightarrow> (nat \<Rightarrow> nat \<Rightarrow> real) \<Rightarrow> (nat \<Rightarrow> real) \<Rightarrow> vec \<Rightarrow> vec" where
  "nn_linear in_features out_features w b x =
     map (\<lambda>out. (\<Sum>i\<leftarrow>[0..<in_features]. w out i * x ! i) + b out) [0..<out_features]"

section \<open>DescriptorEncoder\<close>

text \<open>
  \<^verbatim>\<open>desc.mean(dim=-1)\<close> and \<^verbatim>\<open>desc.std(dim=-1)\<close> of one row. The standard deviation is
  the unbiased one (the sum of squares is divided by \<open>D - 1\<close>), so it is NaN for a row
  of one entry, as the mean is for an empty row. For longer rows both are the exact
  values, of which the results of the code are the roundings to single precision.
\<close>

definition tensor_mean :: "vec \<Rightarrow> float" where
  "tensor_mean xs = (if xs = [] then NaN else Val (sum_list xs / real (length xs)))"

definition tensor_std :: "vec \<Rightarrow> float" where
  "tensor_std xs =
     (if length xs < 2 then NaN
      else Val (sqrt ((\<Sum>x\<leftarrow>xs. (x - sum_list xs / real (length xs))\<^sup>2) / real (length xs - 1))))"

text \<open>
  \<^verbatim>\<open>desc_norm = (desc - desc.mean(...)) / (desc.std(...) + 1e-6)\<close> for one row. The
  standard deviation is not negative, so the divisor is not zero.
\<close>

definition desc_norm :: "vec \<Rightarrow> float list" where
  "desc_norm desc =
     (case (tensor_mean desc, tensor_std desc) of
        (Val mean, Val std) \<Rightarrow> map (\<lambda>d. Val ((d - mean) / (std + 1 / 10 ^ 6))) desc
      | _ \<Rightarrow> map (\<lambda>d. NaN) desc)"

text \<open>\<^verbatim>\<open>bit * val\<close>: every entry of the embedding of a bit, scaled by the value of the bit.\<close>

fun scale :: "vec \<Rightarrow> float \<Rightarrow> float list" where
  "scale b NaN = map (\<lambda>x. NaN) b"
| "scale b (Val v) = map (\<lambda>x. Val (x * v)) b"

text \<open>
  The encoder object: \<open>enc_desc_size\<close> and the shape and weights of \<^verbatim>\<open>bit_emb\<close>, which
  \<^verbatim>\<open>__init__\<close> builds as \<^verbatim>\<open>nn.Embedding(desc_size, emb_dim)\<close>.
\<close>

record DescriptorEncoder =
  enc_desc_size :: nat
  enc_emb_dim :: nat
  bit_emb :: "nat \<Rightarrow> nat \<Rightarrow> real"

text \<open>
  \<^verbatim>\<open>forward(desc)\<close> on a batch \<^verbatim>\<open>[B, D]\<close>. The indices \<^verbatim>\<open>arange(D)\<close> are below
  \<open>desc_size\<close> once the assertion has passed, so the lookup of \<^verbatim>\<open>bit_emb\<close> cannot fail.
\<close>

definition encode_row :: "DescriptorEncoder \<Rightarrow> vec \<Rightarrow> float list list" where
  "encode_row enc desc =
     (let bits = map (\<lambda>k. map (bit_emb enc k) [0..<enc_emb_dim enc]) [0..<length desc];
          val = desc_norm desc
      in map2 scale bits val)"

definition DescriptorEncoder_forward ::
    "DescriptorEncoder \<Rightarrow> vec list \<Rightarrow> error + float list list list" where
  "DescriptorEncoder_forward enc desc =
     (if list_all (\<lambda>row. length row = enc_desc_size enc) desc
      then Inr (map (encode_row enc) desc)
      else Inl AssertionError)"

section \<open>The transformer stack of the framework\<close>

text \<open>
  \<^verbatim>\<open>generate_causal_mask(seq_len, device)\<close>:
  \<^verbatim>\<open>torch.triu(torch.full((seq_len, seq_len), float('-inf')), diagonal=1)\<close> keeps the entries
  above the diagonal and puts 0 elsewhere. An entry of the mask is minus infinity or a
  real number.
\<close>

datatype ext = MinusInf | Finite real

definition generate_causal_mask :: "nat \<Rightarrow> ext list list" where
  "generate_causal_mask seq_len =
     map (\<lambda>r. map (\<lambda>c. if r < c then MinusInf else Finite 0) [0..<seq_len]) [0..<seq_len]"

text \<open>
  \<^verbatim>\<open>nn.TransformerEncoderLayer(d_model, nhead, dim_feedforward, dropout, batch_first=True)\<close>
  with the defaults of the framework: layer normalisation after each block, ReLU,
  \<open>eps = 1e-5\<close>. The weights of one layer:
\<close>

record layer_params =
  in_proj_weight :: "nat \<Rightarrow> nat \<Rightarrow> real"
  in_proj_bias :: "nat \<Rightarrow> real"
  out_proj_weight :: "nat \<Rightarrow> nat \<Rightarrow> real"
  out_proj_bias :: "nat \<Rightarrow> real"
  linear1_weight :: "nat \<Rightarrow> nat \<Rightarrow> real"
  linear1_bias :: "nat \<Rightarrow> real"
  linear2_weight :: "nat \<Rightarrow> nat \<Rightarrow> real"
  linear2_bias :: "nat \<Rightarrow> real"
  norm1_weight :: "nat \<Rightarrow> real"
  norm1_bias :: "nat \<Rightarrow> real"
  norm2_weight :: "nat \<Rightarrow> real"
  norm2_bias :: "nat \<Rightarrow> real"

definition dot :: "vec \<Rightarrow> vec \<Rightarrow> real" where
  "dot u v = (\<Sum>(a, b)\<leftarrow>zip u v. a * b)"

definition relu :: "real \<Rightarrow> real" where
  "relu x = max 0 x"

definition layer_norm :: "nat \<Rightarrow> (nat \<Rightarrow> real) \<Rightarrow> (nat \<Rightarrow> real) \<Rightarrow> vec \<Rightarrow> vec" where
  "layer_norm n w b x =
     (let mean = sum_list x / real n;
          var = (\<Sum>a\<leftarrow>x. (a - mean)\<^sup>2) / real n
      in map (\<lambda>c. (x ! c - mean) / sqrt (var + 1 / 10 ^ 5) * w c + b c) [0..<n])"

text \<open>
  A float mask is added to the attention scores, and the softmax of a score of minus
  infinity is 0. (A row of scores that are all minus infinity would give 0/0; a row of
  the causal mask has the finite entry of the diagonal.)
\<close>

fun add_mask :: "real \<Rightarrow> ext \<Rightarrow> ext" where
  "add_mask s MinusInf = MinusInf"
| "add_mask s (Finite a) = Finite (s + a)"

fun exp_ext :: "ext \<Rightarrow> real" where
  "exp_ext MinusInf = 0"
| "exp_ext (Finite a) = exp a"

definition softmax :: "ext list \<Rightarrow> vec" where
  "softmax xs = map (\<lambda>x. exp_ext x / (\<Sum>y\<leftarrow>xs. exp_ext y)) xs"

text \<open>
  Scaled dot-product attention of one head for one query \<open>q\<close>, over the keys \<open>ks\<close> and
  values \<open>vs\<close> of all positions, with the query's row of the mask.
\<close>

definition attention_row :: "nat \<Rightarrow> ext list \<Rightarrow> vec \<Rightarrow> vec list \<Rightarrow> vec list \<Rightarrow> vec" where
  "attention_row head_dim mask_row q ks vs =
     (let scores = map2 (\<lambda>k m. add_mask (dot q k / sqrt (real head_dim)) m) ks mask_row;
          attn = softmax scores
      in map (\<lambda>c. \<Sum>(a, v)\<leftarrow>zip attn vs. a * v ! c) [0..<head_dim])"

definition head_slice :: "nat \<Rightarrow> nat \<Rightarrow> vec \<Rightarrow> vec" where
  "head_slice head_dim h v = take head_dim (drop (h * head_dim) v)"

text \<open>
  \<^verbatim>\<open>nn.MultiheadAttention\<close> as self-attention: the rows \<open>0..E-1\<close>, \<open>E..2E-1\<close> and
  \<open>2E..3E-1\<close> of the input projection give the queries, keys and values; head \<open>h\<close>
  works on the entries \<open>h * head_dim ..\<close> of each; the heads of a position are joined
  and projected. The constructor asserts that the number of heads divides \<open>E\<close>.
\<close>

definition self_attention :: "nat \<Rightarrow> nat \<Rightarrow> layer_params \<Rightarrow> ext list list \<Rightarrow> vec list \<Rightarrow> vec list" where
  "self_attention E nhead p attn_mask x =
     (let head_dim = E div nhead;
          q = map (nn_linear E E (in_proj_weight p) (in_proj_bias p)) x;
          k = map (nn_linear E E (\<lambda>out. in_proj_weight p (E + out)) (\<lambda>out. in_proj_bias p (E + out))) x;
          v = map (nn_linear E E (\<lambda>out. in_proj_weight p (2 * E + out))
                     (\<lambda>out. in_proj_bias p (2 * E + out))) x;
          heads = map2 (\<lambda>qi mask_row.
                     concat (map (\<lambda>h. attention_row head_dim mask_row (head_slice head_dim h qi)
                                        (map (head_slice head_dim h) k) (map (head_slice head_dim h) v))
                                 [0..<nhead]))
                    q attn_mask
      in map (nn_linear E E (out_proj_weight p) (out_proj_bias p)) heads)"

definition encoder_layer ::
    "nat \<Rightarrow> nat \<Rightarrow> nat \<Rightarrow> layer_params \<Rightarrow> ext list list \<Rightarrow> vec list \<Rightarrow> vec list" where
  "encoder_layer E nhead F p attn_mask x =
     (let x1 = map2 (\<lambda>xi ai. layer_norm E (norm1_weight p) (norm1_bias p) (map2 (+) xi ai))
                 x (self_attention E nhead p attn_mask x)
      in map (\<lambda>xi. layer_norm E (norm2_weight p) (norm2_bias p)
                    (map2 (+) xi
                       (nn_linear F E (linear2_weight p) (linear2_bias p)
                          (map relu (nn_linear E F (linear1_weight p) (linear1_bias p) xi)))))
             x1)"

text \<open>\<^verbatim>\<open>nn.TransformerEncoder(encoder_layer, num_layers)\<close>: the layers one after the other.\<close>

definition transformer_encoder ::
    "nat \<Rightarrow> nat \<Rightarrow> nat \<Rightarrow> layer_params list \<Rightarrow> ext list list \<Rightarrow> vec list \<Rightarrow> vec list" where
  "transformer_encoder E nhead F ps attn_mask x = fold (\<lambda>p y. encoder_layer E nhead F p attn_mask y) ps x"

section \<open>MolGPTModel\<close>

text \<open>The model object: its configuration and the weights of its modules.\<close>

record MolGPTModel =
  config :: MolGPTConfig
  token_embeddings :: "nat \<Rightarrow> nat \<Rightarrow> real"
  position_embeddings :: "nat \<Rightarrow> nat \<Rightarrow> real"
  descriptor_bit_emb :: "nat \<Rightarrow> nat \<Rightarrow> real"
  encoder_layers :: "nat \<Rightarrow> layer_params"
  lm_head_weight :: "nat \<Rightarrow> nat \<Rightarrow> real"
  lm_head_bias :: "nat \<Rightarrow> real"

text \<open>\<^verbatim>\<open>MolGPTEmbeddings.forward\<close> on one row of token ids.\<close>

definition MolGPTEmbeddings_forward :: "MolGPTModel \<Rightarrow> int list \<Rightarrow> error + vec list" where
  "MolGPTEmbeddings_forward m input_ids =
     (let cfg = config m;
          position_ids = map int [0..<length input_ids]
      in case map_result (nn_embedding (vocab_size cfg) (embedding_dim cfg) (token_embeddings m))
                input_ids of
           Inl e \<Rightarrow> Inl e
         | Inr tok \<Rightarrow>
             (case map_result (nn_embedding (max_position_embeddings cfg) (embedding_dim cfg)
                                 (position_embeddings m)) position_ids of
                Inl e \<Rightarrow> Inl e
              | Inr pos \<Rightarrow> Inr (map2 (map2 (+)) tok pos)))"

text \<open>
  \<^verbatim>\<open>self.descriptor_encoder\<close>, built as
  \<^verbatim>\<open>DescriptorEncoder(config.desc_size, config.embedding_dim, ...)\<close>.
\<close>

definition descriptor_encoder :: "MolGPTModel \<Rightarrow> DescriptorEncoder" where
  "descriptor_encoder m =
     \<lparr>enc_desc_size = desc_size (config m), enc_emb_dim = embedding_dim (config m),
      bit_emb = descriptor_bit_emb m\<rparr>"

text \<open>
  \<^verbatim>\<open>MolGPTTransformer.forward\<close> on the positions of one example. With a NaN among the
  entries and at least one layer, every attention score against that position is NaN
  (also a masked one: NaN plus minus infinity is NaN), so every entry of the output is.
\<close>

definition MolGPTTransformer_forward :: "MolGPTModel \<Rightarrow> ext list list \<Rightarrow> float list list \<Rightarrow> float list list" where
  "MolGPTTransformer_forward m attn_mask x =
     (let cfg = config m in
      case reals2 x of
        Some r \<Rightarrow>
          floats2 (transformer_encoder (embedding_dim cfg) (n_heads cfg) (feedforward_dim cfg)
                     (map (encoder_layers m) [0..<n_layers cfg]) attn_mask r)
      | None \<Rightarrow> if n_layers cfg = 0 then x else map (map (\<lambda>a. NaN)) x)"

text \<open>\<^verbatim>\<open>self.lm_head\<close> on one position.\<close>

definition lm_head :: "MolGPTModel \<Rightarrow> float list \<Rightarrow> float list" where
  "lm_head m x =
     (case reals x of
        Some r \<Rightarrow> floats (nn_linear (embedding_dim (config m)) (vocab_size (config m))
                            (lm_head_weight m) (lm_head_bias m) r)
      | None \<Rightarrow> replicate (vocab_size (config m)) NaN)"

text \<open>
  The body of \<^verbatim>\<open>forward\<close> for one example of the batch, from the two embeddings to
  \<^verbatim>\<open>token_logits\<close>.
\<close>

definition example_logits :: "MolGPTModel \<Rightarrow> vec list \<Rightarrow> float list list \<Rightarrow> float list list" where
  "example_logits m token_emb desc_emb =
     (let x = desc_emb @ floats2 token_emb;
          attn_mask = generate_causal_mask (length x);
          y = MolGPTTransformer_forward m attn_mask x;
          logits = map (lm_head m) y
      in drop (length desc_emb) logits)"

subsection \<open>The loss\<close>

text \<open>
  \<^verbatim>\<open>nn.CrossEntropyLoss(ignore_index=...)\<close> with the default reduction \<^verbatim>\<open>'mean'\<close>, on an
  input of \<open>N\<close> rows of class scores and \<open>N\<close> targets: the sum of the terms
  \<open>l\<^sub>n = - log (exp x\<^sub>n\<^sub>,\<^sub>y / \<Sum>\<^sub>c exp x\<^sub>n\<^sub>,\<^sub>c)\<close> of the targets other than
  \<open>ignore_index\<close>, divided by the number of these targets. With no such target the
  quotient is 0/0.
\<close>

definition nll_term :: "int \<Rightarrow> float list \<Rightarrow> int \<Rightarrow> float" where
  "nll_term ignore_index x y =
     (if y = ignore_index then Val 0
      else case reals x of
             None \<Rightarrow> NaN
           | Some r \<Rightarrow> Val (ln (\<Sum>c\<leftarrow>r. exp c) - r ! nat y))"

fun float_sum :: "float list \<Rightarrow> float" where
  "float_sum [] = Val 0"
| "float_sum (NaN # xs) = NaN"
| "float_sum (Val a # xs) = (case float_sum xs of NaN \<Rightarrow> NaN | Val s \<Rightarrow> Val (a + s))"

fun float_div :: "float \<Rightarrow> nat \<Rightarrow> float" where
  "float_div NaN n = NaN"
| "float_div (Val a) n = (if n = 0 then NaN else Val (a / real n))"

definition cross_entropy_loss :: "int \<Rightarrow> float list list \<Rightarrow> int list \<Rightarrow> error + float" where
  "cross_entropy_loss ignore_index input target =
     (if length input \<noteq> length target then Inl ValueError
      else if list_ex (\<lambda>(x, y). y \<noteq> ignore_index \<and> \<not> (0 \<le> y \<and> y < int (length x)))
                (zip input target)
      then Inl IndexError
      else Inr (float_div (float_sum (map2 (nll_term ignore_index) input target))
                  (length (filter (\<lambda>y. y \<noteq> ignore_index) target))))"

text \<open>
  \<^verbatim>\<open>token_logits.view(-1, token_logits.size(-1))\<close>. \<^verbatim>\<open>token_logits\<close> is the slice
  \<^verbatim>\<open>logits[:, D:, :]\<close> of a tensor \<^verbatim>\<open>[B, D + T, V]\<close>, and \<^verbatim>\<open>view\<close> never copies: it
  joins the batch and the position axis only where the rows of the slice follow one
  another in memory, and raises RuntimeError otherwise, as it does for \<open>V = 0\<close>, where
  the size \<open>-1\<close> is ambiguous.
\<close>

definition view_compatible :: "nat \<Rightarrow> nat \<Rightarrow> nat \<Rightarrow> nat \<Rightarrow> bool" where
  "view_compatible B T D V = (V \<noteq> 0 \<and> (B * T = 0 \<or> D = 0 \<or> B = 1 \<or> T = 1))"

subsection \<open>forward\<close>

record CausalLMOutput =
  loss :: "float option"
  logits :: "float list list list"

definition forward ::
    "MolGPTModel \<Rightarrow> int list list \<Rightarrow> vec list \<Rightarrow> int list list option \<Rightarrow> error + CausalLMOutput" where
  "forward m input_ids descriptors labels =
     (case map_result (MolGPTEmbeddings_forward m) input_ids of
        Inl e \<Rightarrow> Inl e
      | Inr token_emb \<Rightarrow>
          (case DescriptorEncoder_forward (descriptor_encoder m) descriptors of
             Inl e \<Rightarrow> Inl e
           | Inr desc_emb \<Rightarrow>
               if length desc_emb \<noteq> length token_emb then Inl RuntimeError
               else
                 (let token_logits = map2 (example_logits m) token_emb desc_emb in
                  case labels of
                    None \<Rightarrow> Inr \<lparr>loss = None, logits = token_logits\<rparr>
                  | Some ls \<Rightarrow>
                      if \<not> view_compatible (length token_logits)
                             (case token_logits of [] \<Rightarrow> 0 | ex # _ \<Rightarrow> length ex)
                             (desc_size (config m)) (vocab_size (config m))
                      then Inl RuntimeError
                      else
                        (case cross_entropy_loss (padding_idx (config m)) (concat token_logits)
                                (concat ls) of
                           Inl e \<Rightarrow> Inl e
                         | Inr l \<Rightarrow> Inr \<lparr>loss = Some l, logits = token_logits\<rparr>))))"

subsection \<open>generate\<close>

text \<open>
  \<^verbatim>\<open>torch.argmax\<close> over the scores of one position: the first index of the largest
  score, a NaN counting as the largest.
\<close>

fun index_of :: "('a \<Rightarrow> bool) \<Rightarrow> 'a list \<Rightarrow> nat" where
  "index_of P [] = 0"
| "index_of P (x # xs) = (if P x then 0 else Suc (index_of P xs))"

definition argmax :: "float list \<Rightarrow> error + int" where
  "argmax xs =
     (case xs of
        [] \<Rightarrow> Inl IndexError
      | _ \<Rightarrow>
          (case reals xs of
             None \<Rightarrow> Inr (int (index_of (\<lambda>x. x = NaN) xs))
           | Some r \<Rightarrow> Inr (int (index_of (\<lambda>x. x = fold max (tl r) (hd r)) r))))"

text \<open>\<^verbatim>\<open>torch.argmax(outputs.logits[:, -1, :], dim=-1)\<close> for one example.\<close>

definition next_token_of :: "float list list \<Rightarrow> error + int" where
  "next_token_of ex = (case ex of [] \<Rightarrow> Inl IndexError | _ \<Rightarrow> argmax (last ex))"

text \<open>The loop \<^verbatim>\<open>for _ in range(max_length)\<close>, with the iterations that are left.\<close>

fun generate_loop :: "MolGPTModel \<Rightarrow> vec list \<Rightarrow> nat \<Rightarrow> int list list \<Rightarrow> error + int list list" where
  "generate_loop m descriptors 0 generated = Inr generated"
| "generate_loop m descriptors (Suc n) generated =
     (case forward m generated descriptors None of
        Inl e \<Rightarrow> Inl e
      | Inr outputs \<Rightarrow>
          (case map_result next_token_of (logits outputs) of
             Inl e \<Rightarrow> Inl e
           | Inr next_token \<Rightarrow>
               (let generated' = map2 (\<lambda>row t. row @ [t]) generated next_token in
                if list_all (\<lambda>t. t = padding_idx (config m)) next_token then Inr generated'
                else generate_loop m descriptors n generated')))"

definition generate :: "MolGPTModel \<Rightarrow> int list list \<Rightarrow> vec list \<Rightarrow> int \<Rightarrow> error + int list list" where
  "generate m input_ids descriptors max_length =
     generate_loop m descriptors (nat max_length) input_ids"

section \<open>Notions used in the statements\<close>

text \<open>
  The id of an entry of the token list; the texts before which a one-letter token is
  matched as itself (they do not start with the second letter of a two-letter
  alternative); and the four shapes of the entries of the token list.
\<close>

definition token_id :: "string \<Rightarrow> int" where
  "token_id t = dict_get vocab t 3"

definition good_start :: "string \<Rightarrow> bool" where
  "good_start r = (case r of [] \<Rightarrow> True | c # _ \<Rightarrow> c \<notin> set ''lrie'')"

definition token_shape :: "string \<Rightarrow> bool" where
  "token_shape t =
     (case t of
        [] \<Rightarrow> False
      | c # cs \<Rightarrow>
          if c = CHR ''%'' then (case cs of [d1, d2] \<Rightarrow> is_digit d1 \<and> is_digit d2 | _ \<Rightarrow> False)
          else if c = CHR ''['' then
            cs \<noteq> [] \<and> butlast cs \<noteq> [] \<and> last cs = CHR '']'' \<and> CHR '']'' \<notin> set (butlast cs)
          else if cs = [] then c \<in> set ''BCNOFPSIcnospb123456789()=#-<''
          else t \<in> {''Cl'', ''Br''})"

text \<open>The rows of token ids that the embedding accepts.\<close>

definition accepted_ids :: "MolGPTModel \<Rightarrow> int list \<Rightarrow> bool" where
  "accepted_ids m row =
     (length row \<le> max_position_embeddings (config m) \<and>
      list_all (\<lambda>i. 0 \<le> i \<and> i < int (vocab_size (config m))) row)"

text \<open>
  The loss in the words of the specification: the average of the cross-entropy over the
  positions whose label differs from the padding index.
\<close>

definition ce_term :: "float list \<Rightarrow> int \<Rightarrow> float" where
  "ce_term x y =
     (case reals x of
        None \<Rightarrow> NaN
      | Some r \<Rightarrow> Val (ln (\<Sum>c\<leftarrow>r. exp c) - r ! nat y))"

definition masked_mean_ce :: "int \<Rightarrow> float list list \<Rightarrow> int list \<Rightarrow> float" where
  "masked_mean_ce pad rows labels =
     (let kept = filter (\<lambda>(x, y). y \<noteq> pad) (zip rows labels)
      in float_div (float_sum (map (\<lambda>(x, y). ce_term x y) kept)) (length kept))"

text \<open>A small model for the examples.\<close>

definition tiny_config :: MolGPTConfig where
  "tiny_config =
     \<lparr>vocab_size = 3, embedding_dim = 2, padding_idx = 0, n_heads = 1, feedforward_dim = 2,
      n_layers = 1, desc_size = 2, max_position_embeddings = 4, hidden_dropout_prob = 1 / 10\<rparr>"

definition tiny_layer :: layer_params where
  "tiny_layer =
     \<lparr>in_proj_weight = (\<lambda>r c. 1), in_proj_bias = (\<lambda>r. 0),
      out_proj_weight = (\<lambda>r c. 1), out_proj_bias = (\<lambda>r. 0),
      linear1_weight = (\<lambda>r c. 1), linear1_bias = (\<lambda>r. 0),
      linear2_weight = (\<lambda>r c. 1), linear2_bias = (\<lambda>r. 0),
      norm1_weight = (\<lambda>c. 1), norm1_bias = (\<lambda>c. 0),
      norm2_weight = (\<lambda>c. 1), norm2_bias = (\<lambda>c. 0)\<rparr>"

definition tiny_model :: MolGPTModel where
  "tiny_model =
     \<lparr>config = tiny_config,
      token_embeddings = (\<lambda>r c. real (r + c)), position_embeddings = (\<lambda>r c. real r),
      descriptor_bit_emb = (\<lambda>r c. 1), encoder_layers = (\<lambda>l. tiny_layer),
      lm_head_weight = (\<lambda>r c. real r), lm_head_bias = (\<lambda>r. 0)\<rparr>"

section \<open>Facts about the tokenizer\<close>

lemma distinct_all_tokens: "distinct all_tokens" 
  by (simp add: all_tokens_def tokens_def special_tokens_list_def)

lemma dict_set_append:
  "k \<notin> fst ` set d \<Longrightarrow> dict_set d k v = d @ [(k, v)]"
  by (induction d) auto

lemma fold_dict_set_distinct:
  "distinct (map fst kvs) \<Longrightarrow> fst ` set d \<inter> fst ` set kvs = {} \<Longrightarrow>
   fold (\<lambda>(k, v) d. dict_set d k v) kvs d = d @ kvs"
proof (induction kvs arbitrary: d)
  case Nil
  then show ?case by simp
next
  case (Cons kv kvs)
  obtain k v where kv: "kv = (k, v)" by (cases kv)
  from Cons.prems kv have "k \<notin> fst ` set d" by auto
  then have s: "dict_set d k v = d @ [(k, v)]" by (rule dict_set_append)
  from Cons.prems kv have "fold (\<lambda>(k, v) d. dict_set d k v) kvs (d @ [(k, v)]) = (d @ [(k, v)]) @ kvs"
    by (intro Cons.IH) auto
  with s kv show ?case by simp
qed

lemma fold_swap:
  "fold (\<lambda>(i, t) d. dict_set d t i) ivs d = fold (\<lambda>(k, v) d. dict_set d k v) (map prod.swap ivs) d"
  by (induction ivs arbitrary: d) auto

lemma swap_zip: "map prod.swap (zip xs ys) = zip ys xs"
  by (induction xs arbitrary: ys) (auto simp: zip_Cons1 split: list.splits)

lemma vocab_eq: "vocab = zip all_tokens (map int [0..<length all_tokens])"
  unfolding vocab_def py_enumerate_def fold_swap swap_zip
  by (rule fold_dict_set_distinct[where d="[]", simplified]) (simp add: distinct_all_tokens)

lemma ids_to_tokens_eq: "ids_to_tokens = zip (map int [0..<length all_tokens]) all_tokens"
  unfolding ids_to_tokens_def fold_swap vocab_eq swap_zip
  by (rule fold_dict_set_distinct[where d="[]", simplified]) (simp add: distinct_map inj_on_def)

lemma length_all_tokens: "length all_tokens = 98"
  by (simp add: all_tokens_def tokens_def special_tokens_list_def)

lemma map_of_vocab_nth: "i < length all_tokens \<Longrightarrow> map_of vocab (all_tokens ! i) = Some (int i)"
  unfolding vocab_eq using distinct_all_tokens
  by (simp add: map_of_zip_nth)

lemma map_of_vocab_None: "t \<notin> set all_tokens \<Longrightarrow> map_of vocab t = None"
  unfolding vocab_eq by (simp add: map_of_zip_is_None)

lemma map_of_ids_nth: "i < length all_tokens \<Longrightarrow> map_of ids_to_tokens (int i) = Some (all_tokens ! i)"
  unfolding ids_to_tokens_eq
  using map_of_zip_nth[of "map int [0..<length all_tokens]" all_tokens i]
  by (simp add: distinct_map inj_on_def)

lemma vocab_special:
  "map_of vocab ''<BOS>'' = Some 0" "map_of vocab ''<EOS>'' = Some 1"
  "map_of vocab ''<PAD>'' = Some 2" "map_of vocab ''<UNK>'' = Some 3"
  using map_of_vocab_nth[of 0] map_of_vocab_nth[of 1] map_of_vocab_nth[of 2] map_of_vocab_nth[of 3]
  by (simp_all add: length_all_tokens) (simp_all add: all_tokens_def special_tokens_list_def)

lemma ring_other: "c \<noteq> CHR ''%'' \<Longrightarrow> match_alt Ring (c # s) = None"
  by (auto split: list.splits)

lemma bracket_other: "c \<noteq> CHR ''['' \<Longrightarrow> match_alt Bracket (c # s) = None"
  by simp

lemma ring_match:
  "is_digit d1 \<Longrightarrow> is_digit d2 \<Longrightarrow>
   first_match pattern (CHR ''%'' # d1 # d2 # r) = Some ([CHR ''%'', d1, d2], r)"
  by (simp add: pattern_def)

lemma bracket_match:
  assumes "body \<noteq> []" and "CHR '']'' \<notin> set body"
  shows "first_match pattern (CHR ''['' # body @ CHR '']'' # r) = Some (CHR ''['' # body @ '']'', r)"
proof -
  from assms(2) have "takeWhile (\<lambda>x. x \<noteq> CHR '']'') (body @ CHR '']'' # r) = body"
    by (induction body) auto
  moreover from assms(2) have "dropWhile (\<lambda>x. x \<noteq> CHR '']'') (body @ CHR '']'' # r) = CHR '']'' # r"
    by (induction body) auto
  ultimately have "match_alt Bracket (CHR ''['' # body @ CHR '']'' # r) = Some (CHR ''['' # body @ '']'', r)"
    using assms(1) by simp
  then show ?thesis
    by (simp add: pattern_def ring_other del: match_alt.simps(1,2))
qed

lemma literal_match:
  "p \<in> {''Cl'', ''Br''} \<Longrightarrow> first_match pattern (p @ r) = Some (p, r)"
  by (auto simp: pattern_def ring_other bracket_other simp del: match_alt.simps(1,2))

lemma single_match:
  assumes "c \<in> set ''BCNOFPSIcnospb123456789()=#-<''" and "good_start r"
  shows "first_match pattern (c # r) = Some ([c], r)"
proof (cases r)
  case Nil
  with assms(1) show ?thesis
    by (auto simp: pattern_def ring_other bracket_other simp del: match_alt.simps(1,2))
next
  case (Cons d ds)
  with assms(2) have "d \<noteq> CHR ''l''" "d \<noteq> CHR ''r''" "d \<noteq> CHR ''i''" "d \<noteq> CHR ''e''"
    by (auto simp: good_start_def)
  with assms(1) Cons show ?thesis
    by (auto simp: pattern_def ring_other bracket_other simp del: match_alt.simps(1,2))
qed

lemma tokens_shape: "list_all token_shape tokens"
  by (simp add: tokens_def token_shape_def is_digit_def)

lemma token_match:
  assumes "t \<in> set tokens" and "good_start r"
  shows "first_match pattern (t @ r) = Some (t, r)"
proof -
  from assms(1) tokens_shape have sh: "token_shape t" by (simp add: list_all_iff)
  then obtain c cs where t: "t = c # cs" by (cases t) (auto simp: token_shape_def)
  show ?thesis
  proof (cases "c = CHR ''%''")
    case True
    with sh t obtain d1 d2 where "cs = [d1, d2]" "is_digit d1" "is_digit d2"
      by (auto simp: token_shape_def split: list.splits)
    with True t show ?thesis using ring_match[of d1 d2 r] by simp
  next
    case pc: False
    show ?thesis
    proof (cases "c = CHR ''[''")
      case True
      with sh t have "cs \<noteq> []" "butlast cs \<noteq> []" "last cs = CHR '']''" "CHR '']'' \<notin> set (butlast cs)"
        by (auto simp: token_shape_def)
      moreover from this have "cs = butlast cs @ '']''" by (metis append_butlast_last_id)
      ultimately show ?thesis using bracket_match[of "butlast cs" r] True t
        by (metis append_Cons append_Nil append_assoc)
    next
      case bc: False
      show ?thesis
      proof (cases "cs = []")
        case True
        with sh t pc bc have "c \<in> set ''BCNOFPSIcnospb123456789()=#-<''"
          by (simp add: token_shape_def)
        with True t assms(2) show ?thesis using single_match[of c r] by simp
      next
        case False
        with sh t pc bc have "t \<in> {''Cl'', ''Br''}" by (simp add: token_shape_def)
        then show ?thesis by (rule literal_match)
      qed
    qed
  qed
qed

lemma token_start: "t \<in> set tokens \<Longrightarrow> t \<noteq> [] \<and> hd t \<notin> set ''lrie''"
  unfolding tokens_def by auto

lemma good_start_concat: "\<forall>t \<in> set ts. t \<in> set tokens \<Longrightarrow> good_start (concat ts)"
proof (cases ts)
  case Nil
  then show ?thesis by (simp add: good_start_def)
next
  case (Cons t ts')
  assume "\<forall>t \<in> set ts. t \<in> set tokens"
  with Cons have "t \<noteq> [] \<and> hd t \<notin> set ''lrie''" by (intro token_start) simp
  then show ?thesis unfolding Cons by (cases t) (auto simp: good_start_def)
qed

lemma findall_concat: "\<forall>t \<in> set ts. t \<in> set tokens \<Longrightarrow> findall (concat ts) = ts"
proof (induction ts)
  case Nil
  then show ?case by (simp add: findall.simps)
next
  case (Cons t ts)
  then have g: "good_start (concat ts)" and tt: "t \<in> set tokens" by (auto intro: good_start_concat)
  from token_start[OF tt] obtain c cs where t: "t = c # cs" by (auto simp: neq_Nil_conv)
  from token_match[OF tt g] t have "first_match pattern (c # cs @ concat ts) = Some (t, concat ts)"
    by simp
  with Cons t show ?case by (simp add: findall.simps)
qed

lemma convert_token: "i < length all_tokens \<Longrightarrow> convert_token_to_id (all_tokens ! i) = Inr (int i)"
  by (simp add: convert_token_to_id_def getitem_def dict_get_def vocab_special map_of_vocab_nth)

lemma convert_id: "i < length all_tokens \<Longrightarrow> convert_id_to_token (int i) = all_tokens ! i"
  by (simp add: convert_id_to_token_def dict_get_def map_of_ids_nth)

lemma tokens_not_special: "t \<in> set tokens \<Longrightarrow> t \<notin> set special_tokens_list"
  using distinct_all_tokens by (auto simp: all_tokens_def)

lemma map_result_Inr: "\<forall>x \<in> set xs. f x = Inr (g x) \<Longrightarrow> map_result f xs = Inr (map g xs)"
  by (induction xs) auto

lemma token_id_conv: assumes "t \<in> set tokens"
  shows "convert_token_to_id t = Inr (token_id t) \<and> convert_id_to_token (token_id t) = t"
proof -
  from assms have "t \<in> set all_tokens" by (simp add: all_tokens_def)
  then obtain i where i: "i < length all_tokens" "t = all_tokens ! i" by (auto simp: in_set_conv_nth)
  then have "token_id t = int i" by (simp add: token_id_def dict_get_def map_of_vocab_nth)
  with i show ?thesis by (simp add: convert_token convert_id)
qed

text \<open>
  The methods that the class itself defines compose to a round trip: a text that is a
  concatenation of entries of \<open>tokens\<close> is split into these entries, every entry is
  converted to its id and the id back to the entry, and joining the entries gives the
  text.
\<close>

lemma hooks_round_trip:
  assumes "set ts \<subseteq> set tokens"
  shows "map_result convert_token_to_id (tokenize (concat ts)) = Inr (map token_id ts) \<and>
         convert_tokens_to_string (map convert_id_to_token (map token_id ts)) = concat ts"
proof -
  from assms have a: "\<forall>t \<in> set ts. t \<in> set tokens" by auto
  have tk: "tokenize (concat ts) = ts" using a by (simp add: tokenize_def findall_concat)
  have "map_result convert_token_to_id ts = Inr (map token_id ts)"
    using a by (intro map_result_Inr) (simp add: token_id_conv)
  moreover have "map convert_id_to_token (map token_id ts) = ts"
    using a by (induction ts) (simp_all add: token_id_conv)
  moreover have "filter (\<lambda>t. t \<notin> set special_tokens_list) ts = ts"
    using a by (simp add: tokens_not_special)
  ultimately show ?thesis using tk by (simp add: convert_tokens_to_string_def)
qed

text \<open>The conversion of a token to its id never raises: \<^verbatim>\<open><UNK>\<close> is a key of the vocabulary.\<close>

lemma convert_token_to_id_returns: "convert_token_to_id t = Inr (token_id t)"
  by (simp add: convert_token_to_id_def getitem_def vocab_special token_id_def)

text \<open>
  Claim C2 (tokenizer round trip): decoding the encoding of a text made of vocabulary
  entries should give the text back. The code does not get as far as decoding:
  \<open>encode\<close> raises TypeError for every text, because the inherited method passes two
  arguments to \<open>build_inputs_with_special_tokens\<close> and the method of the class takes
  one.
\<close>

theorem encode_raises: "encode text = Inl TypeError"
proof -
  have "map_result convert_token_to_id (tokenize text) = Inr (map token_id (tokenize text))"
    by (intro map_result_Inr) (simp add: convert_token_to_id_returns)
  then show ?thesis by (simp add: encode_def build_inputs_with_special_tokens_def)
qed

text \<open>What the pattern can emit is never one of the special tokens.\<close>

lemma match_alt_emits:
  "match_alt a s = Some (t, r) \<Longrightarrow> (\<forall>p. a = Lit p \<longrightarrow> p \<notin> set special_tokens_list) \<Longrightarrow>
   t \<notin> set special_tokens_list"
  by (cases a) (auto simp: special_tokens_list_def Let_def split: list.splits if_splits)

lemma first_match_emits:
  "first_match as s = Some (t, r) \<Longrightarrow> \<forall>p. Lit p \<in> set as \<longrightarrow> p \<notin> set special_tokens_list \<Longrightarrow>
   t \<notin> set special_tokens_list"
proof (induction as)
  case Nil
  then show ?case by simp
next
  case (Cons a as)
  show ?case
  proof (cases "match_alt a s")
    case None
    with Cons show ?thesis by auto
  next
    case (Some x)
    with Cons.prems have "match_alt a s = Some (t, r)" by simp
    moreover from Cons.prems(2) have "\<forall>p. a = Lit p \<longrightarrow> p \<notin> set special_tokens_list" by auto
    ultimately show ?thesis by (rule match_alt_emits)
  qed
qed

lemma pattern_emits: "first_match pattern s = Some (t, r) \<Longrightarrow> t \<notin> set special_tokens_list"
  by (erule first_match_emits) (simp add: pattern_def special_tokens_list_def)

lemma findall_emits: "t \<in> set (findall s) \<Longrightarrow> t \<notin> set special_tokens_list"
proof (induction s rule: findall.induct)
  case 1
  then show ?case by (simp add: findall.simps)
next
  case (2 c cs)
  show ?case
  proof (cases "first_match pattern (c # cs)")
    case None
    with 2 show ?thesis by (simp add: findall.simps)
  next
    case (Some x)
    obtain u rest where x: "x = (u, rest)" by (cases x)
    with Some have "u \<notin> set special_tokens_list" by (auto dest: pattern_emits)
    with 2 Some x show ?thesis by (auto simp: findall.simps)
  qed
qed

text \<open>
  Claim C8 (unknown-token fallback). For every token string \<open>t\<close>, the token-to-id
  conversion returns the vocabulary id of \<open>t\<close> when \<open>t\<close> is in the vocabulary (the
  id is the position of \<open>t\<close> in \<open>all_tokens\<close>), and the id of \<^verbatim>\<open><UNK>\<close>, which is
  3, otherwise. In particular every token that the regular expression emits on some
  text and that is absent from the token list is converted to the id of \<^verbatim>\<open><UNK>\<close>.
\<close>

theorem unknown_token_fallback:
  "(t \<in> set all_tokens \<longrightarrow>
      (\<exists>i. getitem vocab t = Inr i \<and> convert_token_to_id t = Inr i \<and> all_tokens ! nat i = t)) \<and>
   (t \<notin> set all_tokens \<longrightarrow> convert_token_to_id t = getitem vocab ''<UNK>'') \<and>
   (t \<in> set (tokenize text) \<longrightarrow> t \<notin> set tokens \<longrightarrow> convert_token_to_id t = getitem vocab ''<UNK>'') \<and>
   getitem vocab ''<UNK>'' = Inr 3"
proof -
  have unk: "getitem vocab ''<UNK>'' = Inr 3" by (simp add: getitem_def vocab_special)
  have a: "convert_token_to_id t = getitem vocab ''<UNK>''" if "t \<notin> set all_tokens"
    using that by (simp add: convert_token_to_id_def unk dict_get_def map_of_vocab_None)
  have b: "\<exists>i. getitem vocab t = Inr i \<and> convert_token_to_id t = Inr i \<and> all_tokens ! nat i = t"
    if "t \<in> set all_tokens"
  proof -
    from that obtain i where "i < length all_tokens" "t = all_tokens ! i" by (auto simp: in_set_conv_nth)
    then have "getitem vocab t = Inr (int i) \<and> convert_token_to_id t = Inr (int i) \<and> all_tokens ! nat (int i) = t"
      by (simp add: getitem_def map_of_vocab_nth convert_token)
    then show ?thesis by blast
  qed
  have c: "convert_token_to_id t = getitem vocab ''<UNK>''" if "t \<in> set (tokenize text)" "t \<notin> set tokens"
  proof -
    from that(1) have "t \<notin> set special_tokens_list" by (simp add: tokenize_def findall_emits)
    with that(2) have "t \<notin> set all_tokens" by (simp add: all_tokens_def)
    then show ?thesis by (rule a)
  qed
  from a b c unk show ?thesis by blast
qed

lemma findall_CSi: "findall ''CSi.Cl'' = [''C'', ''Si'', ''.'', ''Cl'']"
  by (simp add: findall.simps pattern_def is_digit_def)

theorem unknown_token_fallback_witness:
  "''Si'' \<in> set (tokenize ''CSi.Cl'') \<and> ''Si'' \<notin> set tokens \<and> ''Si'' \<notin> set all_tokens \<and>
   convert_token_to_id ''Si'' = Inr 3 \<and>
   ''Cl'' \<in> set all_tokens \<and> getitem vocab ''Cl'' = Inr 25 \<and> convert_token_to_id ''Cl'' = Inr 25"
proof -
  have tk: "tokenize ''CSi.Cl'' = [''C'', ''Si'', ''.'', ''Cl'']"
    unfolding tokenize_def by (rule findall_CSi)
  have n: "''Si'' \<notin> set tokens" "''Si'' \<notin> set all_tokens" "''Cl'' \<in> set all_tokens"
    by (simp_all add: all_tokens_def tokens_def special_tokens_list_def)
  have g: "getitem vocab ''Cl'' = Inr 25"
    using map_of_vocab_nth[of 25]
    by (simp add: length_all_tokens getitem_def) (simp add: all_tokens_def special_tokens_list_def tokens_def)
  from unknown_token_fallback[of "''Si''" "''CSi.Cl''"] unknown_token_fallback[of "''Cl''" "[]"] tk n g
  show ?thesis by auto
qed

text \<open>
  Claim C6, as amended (the padding ids). The padding index of the model configuration
  defaults to 0. The tokenizer gives its padding token \<^verbatim>\<open><PAD>\<close> the id 2, its position in
  \<open>special_tokens_list\<close>; the id 0 is that of \<^verbatim>\<open><BOS>\<close>.
\<close>

theorem padding_ids:
  "padding_idx default_config = 0 \<and> getitem vocab ''<PAD>'' = Inr 2 \<and>
   getitem vocab ''<BOS>'' = Inr 0 \<and> convert_token_to_id ''<PAD>'' = Inr 2"
  by (simp add: default_config_def getitem_def convert_token_to_id_def dict_get_def vocab_special)

text \<open>The tokenizer does not give \<^verbatim>\<open><PAD>\<close> the id 0.\<close>

theorem padding_id_zero_counterexample:
  "\<not> (padding_idx default_config = 0 \<and> convert_token_to_id ''<PAD>'' = Inr 0)"
  by (simp add: convert_token_to_id_def getitem_def dict_get_def vocab_special)

section \<open>The descriptor encoder\<close>

lemma tiny_simps:
  "config tiny_model = tiny_config" "vocab_size tiny_config = 3" "desc_size tiny_config = 2"
  "max_position_embeddings tiny_config = 4" "padding_idx tiny_config = 0"
  by (simp_all add: tiny_model_def tiny_config_def)

lemma length_desc_norm: "length (desc_norm desc) = length desc"
  by (simp add: desc_norm_def split: float.splits)

lemma length_encode_row: "length (encode_row enc desc) = length desc"
  by (simp add: encode_row_def Let_def length_desc_norm)

lemma length_scale: "length (scale b v) = length b"
  by (cases v) simp_all

lemma encode_row_widths: "e \<in> set (encode_row enc desc) \<Longrightarrow> length e = enc_emb_dim enc"
  by (auto simp: encode_row_def Let_def length_scale set_zip)

text \<open>
  Claim C7 (descriptor dimensionality check). The forward pass of the descriptor encoder
  fails with the assertion exactly when a descriptor vector of the batch has a length
  other than the configured descriptor size. When all have that length it returns, for
  every example, one embedding vector of \<open>emb_dim\<close> entries per descriptor entry.
\<close>

theorem descriptor_dim_check:
  "(DescriptorEncoder_forward enc desc = Inl AssertionError \<longleftrightarrow>
      (\<exists>row \<in> set desc. length row \<noteq> enc_desc_size enc)) \<and>
   ((\<forall>row \<in> set desc. length row = enc_desc_size enc) \<longrightarrow>
      (\<exists>emb. DescriptorEncoder_forward enc desc = Inr emb \<and> length emb = length desc \<and>
         (\<forall>e \<in> set emb. length e = enc_desc_size enc \<and> (\<forall>v \<in> set e. length v = enc_emb_dim enc))))"
  by (auto simp: DescriptorEncoder_forward_def list_all_iff length_encode_row encode_row_widths)

theorem descriptor_dim_check_witness:
  "DescriptorEncoder_forward (descriptor_encoder tiny_model) [[1, 2, 3]] = Inl AssertionError \<and>
   length [1, 2, 3 :: real] \<noteq> enc_desc_size (descriptor_encoder tiny_model) \<and>
   (\<exists>emb. DescriptorEncoder_forward (descriptor_encoder tiny_model) [[3, 5], [1, 1]] = Inr emb \<and>
      length emb = 2 \<and> length (emb ! 0) = 2 \<and> length (emb ! 0 ! 1) = 2)"
proof -
  let ?enc = "descriptor_encoder tiny_model"
  have d: "enc_desc_size ?enc = 2" "enc_emb_dim ?enc = 2"
    by (simp_all add: descriptor_encoder_def tiny_simps tiny_model_def tiny_config_def)
  from descriptor_dim_check[of ?enc "[[1, 2, 3]]"] d
  have a: "DescriptorEncoder_forward ?enc [[1, 2, 3]] = Inl AssertionError" by simp
  from descriptor_dim_check[of ?enc "[[3, 5], [1, 1]]"] d
  obtain emb where e: "DescriptorEncoder_forward ?enc [[3, 5], [1, 1]] = Inr emb" "length emb = 2"
    and w: "\<forall>e \<in> set emb. length e = 2 \<and> (\<forall>v \<in> set e. length v = 2)"
    by auto
  from e(2) have "emb ! 0 \<in> set emb" by simp
  with w have l0: "length (emb ! 0) = 2" and w0: "\<forall>v \<in> set (emb ! 0). length v = 2" by blast+
  from l0 have "emb ! 0 ! 1 \<in> set (emb ! 0)" by simp
  with w0 have "length (emb ! 0 ! 1) = 2" by blast
  with a e l0 d show ?thesis by auto
qed

text \<open>
  Claim C9 (normalisation of a constant descriptor): the normalised value of every entry
  of a descriptor whose entries are all equal should be 0. In the code it is NaN for a
  descriptor of one entry, whatever the entry is: the unbiased standard deviation of one
  value is NaN, the \<^verbatim>\<open>1e-6\<close> added to it does not change that, and the encoder returns
  an embedding whose entries are all NaN.
\<close>

theorem single_descriptor_nan:
  "desc_norm [c] = [NaN] \<and>
   DescriptorEncoder_forward \<lparr>enc_desc_size = 1, enc_emb_dim = 2, bit_emb = (\<lambda>r k. 1)\<rparr> [[5]]
     = Inr [[[NaN, NaN]]]"
  by (simp add: desc_norm_def tensor_mean_def tensor_std_def DescriptorEncoder_forward_def
      encode_row_def numeral_2_eq_2)

section \<open>Causality of the transformer stack\<close>

text \<open>
  With the causal mask, the output of the stack at the first \<open>n\<close> positions is the output
  of the stack on the first \<open>n\<close> positions alone: a masked score contributes the weight 0.
\<close>

lemma map_constant: "\<forall>x \<in> set xs. f x = c \<Longrightarrow> map f xs = replicate (length xs) c"
  by (induction xs) auto

lemma causal_mask_nth:
  "i < L \<Longrightarrow> generate_causal_mask L ! i = map (\<lambda>c. if i < c then MinusInf else Finite 0) [0..<L]"
  by (simp add: generate_causal_mask_def)

lemma causal_mask_row:
  assumes "i < n" and "n \<le> L"
  shows "generate_causal_mask L ! i = generate_causal_mask n ! i @ replicate (L - n) MinusInf"
proof -
  from assms have u: "[0..<L] = [0..<n] @ [n..<L]"
    by (metis le_add_diff_inverse upt_add_eq_append zero_le)
  have "map (\<lambda>c. if i < c then MinusInf else Finite 0) [n..<L] = replicate (L - n) MinusInf"
    using assms(1) map_constant[of "[n..<L]" "\<lambda>c. if i < c then MinusInf else Finite 0" MinusInf]
    by auto
  then have "map (\<lambda>c. if i < c then MinusInf else Finite 0) [0..<L]
      = map (\<lambda>c. if i < c then MinusInf else Finite 0) [0..<n] @ replicate (L - n) MinusInf"
    by (subst u) simp
  with assms show ?thesis by (simp add: causal_mask_nth)
qed

lemma softmax_masked_tail:
  "softmax (xs @ replicate k MinusInf) = softmax xs @ replicate k 0"
  by (simp add: softmax_def sum_list_replicate)

lemma sum_zip_zeros: "(\<Sum>(a, v)\<leftarrow>zip (replicate k 0) vs. a * f v) = (0::real)"
  by (induction k arbitrary: vs) (auto simp: zip_Cons1 split: list.splits)

lemma attention_row_masked_tail:
  assumes "length mr = length ks1" and "length vs1 = length ks1" and "length ks2 = k"
  shows "attention_row d (mr @ replicate k MinusInf) q (ks1 @ ks2) (vs1 @ vs2)
         = attention_row d mr q ks1 vs1"
proof -
  have "map2 (\<lambda>k m. add_mask (dot q k / sqrt (real d)) m) ks2 (replicate k MinusInf)
        = replicate k MinusInf"
    using assms(3)
    by (intro map_constant[where xs="zip ks2 (replicate k MinusInf)", simplified, THEN trans])
       (auto simp: set_zip)
  then have sc: "map2 (\<lambda>k m. add_mask (dot q k / sqrt (real d)) m) (ks1 @ ks2) (mr @ replicate k MinusInf)
        = map2 (\<lambda>k m. add_mask (dot q k / sqrt (real d)) m) ks1 mr @ replicate k MinusInf"
    using assms by (simp add: zip_append)
  show ?thesis
    unfolding attention_row_def Let_def sc softmax_masked_tail
    using assms by (simp add: zip_append softmax_def sum_zip_zeros)
qed

lemma length_causal_mask [simp]: "length (generate_causal_mask L) = L"
  by (simp add: generate_causal_mask_def)

lemma length_causal_mask_row: "i < L \<Longrightarrow> length (generate_causal_mask L ! i) = L"
  by (simp add: causal_mask_nth)

lemma attention_row_prefix:
  assumes "i < n" and "n \<le> length ks" and "length vs = length ks"
  shows "attention_row d (generate_causal_mask (length ks) ! i) q ks vs
         = attention_row d (generate_causal_mask n ! i) q (take n ks) (take n vs)"
proof -
  have "attention_row d (generate_causal_mask n ! i @ replicate (length ks - n) MinusInf) q
          (take n ks @ drop n ks) (take n vs @ drop n vs)
        = attention_row d (generate_causal_mask n ! i) q (take n ks) (take n vs)"
    using assms by (intro attention_row_masked_tail) (simp_all add: length_causal_mask_row)
  then show ?thesis
    unfolding causal_mask_row[OF assms(1,2), symmetric] by simp
qed

lemma length_self_attention:
  "length (self_attention E h p (generate_causal_mask (length x)) x) = length x"
  by (simp add: self_attention_def Let_def)

lemma self_attention_prefix:
  assumes "n \<le> length x"
  shows "take n (self_attention E h p (generate_causal_mask (length x)) x)
         = self_attention E h p (generate_causal_mask n) (take n x)"
proof (rule nth_equalityI)
  show "length (take n (self_attention E h p (generate_causal_mask (length x)) x))
        = length (self_attention E h p (generate_causal_mask n) (take n x))"
    using assms by (simp add: self_attention_def Let_def)
next
  fix i assume "i < length (take n (self_attention E h p (generate_causal_mask (length x)) x))"
  with assms have i: "i < n" by (simp add: length_self_attention)
  with assms have il: "i < length x" by simp
  have row: "attention_row d (generate_causal_mask (length x) ! i) q (map f x) (map g x)
         = attention_row d (generate_causal_mask n ! i) q (map f (take n x)) (map g (take n x))"
    for d q and f g :: "vec \<Rightarrow> vec"
    using attention_row_prefix[of i n "map f x" "map g x" d q] i assms by (simp add: take_map)
  show "take n (self_attention E h p (generate_causal_mask (length x)) x) ! i
        = self_attention E h p (generate_causal_mask n) (take n x) ! i"
    using i il assms by (simp add: self_attention_def Let_def row)
qed

lemma length_encoder_layer:
  "length (encoder_layer E h F p (generate_causal_mask (length x)) x) = length x"
  by (simp add: encoder_layer_def Let_def length_self_attention)

lemma encoder_layer_prefix:
  assumes "n \<le> length x"
  shows "take n (encoder_layer E h F p (generate_causal_mask (length x)) x)
         = encoder_layer E h F p (generate_causal_mask n) (take n x)"
  unfolding encoder_layer_def Let_def
  by (simp add: take_map take_zip self_attention_prefix[OF assms])

lemma length_transformer_encoder_aux:
  "length x = L \<Longrightarrow> length (transformer_encoder E h F ps (generate_causal_mask L) x) = L"
  unfolding transformer_encoder_def
proof (induction ps arbitrary: x)
  case Nil
  then show ?case by simp
next
  case (Cons p ps)
  from Cons.prems have "length (encoder_layer E h F p (generate_causal_mask L) x) = L"
    using length_encoder_layer[of E h F p x] by simp
  from Cons.IH[OF this] show ?case by simp
qed

lemma length_transformer_encoder:
  "length (transformer_encoder E h F ps (generate_causal_mask (length x)) x) = length x"
  by (simp add: length_transformer_encoder_aux)

lemma transformer_encoder_prefix:
  assumes "n \<le> length x"
  shows "take n (transformer_encoder E h F ps (generate_causal_mask (length x)) x)
         = transformer_encoder E h F ps (generate_causal_mask n) (take n x)"
  using assms unfolding transformer_encoder_def
proof (induction ps arbitrary: x)
  case Nil
  then show ?case by simp
next
  case (Cons p ps)
  let ?x' = "encoder_layer E h F p (generate_causal_mask (length x)) x"
  have l: "length ?x' = length x" by (rule length_encoder_layer)
  from Cons.prems l have "n \<le> length ?x'" by simp
  from Cons.IH[OF this] show ?case
    by (simp add: l encoder_layer_prefix[OF Cons.prems])
qed

lemma exp_ext_nonneg: "0 \<le> exp_ext x"
  by (cases x) simp_all

lemma sum_list_exp_ext_pos:
  assumes "Finite a \<in> set xs"
  shows "0 < (\<Sum>y\<leftarrow>xs. exp_ext y)"
  using assms
proof (induction xs)
  case Nil
  then show ?case by simp
next
  case (Cons x xs)
  have nn: "0 \<le> (\<Sum>y\<leftarrow>xs. exp_ext y)" by (rule sum_list_nonneg) (auto simp: exp_ext_nonneg)
  show ?case
  proof (cases "x = Finite a")
    case True
    with nn show ?thesis by (simp add: add_pos_nonneg)
  next
    case False
    with Cons have "0 < (\<Sum>y\<leftarrow>xs. exp_ext y)" by simp
    then show ?thesis using exp_ext_nonneg[of x] by (simp add: add_nonneg_pos)
  qed
qed

text \<open>
  Under the causal mask the softmax of a row of scores is a quotient by a positive
  number: the score of a position against itself is finite.
\<close>

lemma causal_softmax_defined:
  assumes "i < length ks"
  shows "0 < (\<Sum>y\<leftarrow>map2 (\<lambda>k m. add_mask (f k) m) ks (generate_causal_mask (length ks) ! i). exp_ext y)"
proof -
  let ?row = "generate_causal_mask (length ks) ! i"
  let ?sc = "map2 (\<lambda>k m. add_mask (f k) m) ks ?row"
  from assms have l: "length ?row = length ks" by (simp add: length_causal_mask_row)
  with assms have "?sc ! i = add_mask (f (ks ! i)) (?row ! i)" by simp
  also from assms have "?row ! i = Finite 0" by (simp add: causal_mask_nth)
  finally have "?sc ! i = Finite (f (ks ! i))" by simp
  moreover from assms l have "i < length ?sc" by simp
  ultimately have "Finite (f (ks ! i)) \<in> set ?sc" by (metis nth_mem)
  then show ?thesis by (rule sum_list_exp_ext_pos)
qed

subsection \<open>Tensors with NaN entries, and the logits of one example\<close>

lemma reals_floats [simp]: "reals (floats v) = Some v"
  by (induction v) (simp_all add: floats_def)

lemma reals2_floats2 [simp]: "reals2 (floats2 m) = Some m"
  by (induction m) (simp_all add: floats2_def)

lemma reals_length: "reals x = Some r \<Longrightarrow> length r = length x"
  by (induction x arbitrary: r rule: reals.induct) auto

lemma reals_Some_floats: "reals x = Some r \<Longrightarrow> x = floats r"
  by (induction x arbitrary: r rule: reals.induct) (auto simp: floats_def)

lemma reals2_Some_floats2: "reals2 x = Some r \<Longrightarrow> x = floats2 r"
  by (induction x arbitrary: r) (auto simp: floats2_def reals_Some_floats split: option.splits)

lemma reals2_append:
  "reals2 (a @ b) = (case reals2 a of None \<Rightarrow> None
                     | Some ra \<Rightarrow> (case reals2 b of None \<Rightarrow> None | Some rb \<Rightarrow> Some (ra @ rb)))"
  by (induction a) (auto split: option.splits)

lemma length_floats2 [simp]: "length (floats2 m) = length m"
  by (simp add: floats2_def)

lemma take_floats2: "take n (floats2 m) = floats2 (take n m)"
  by (simp add: floats2_def take_map)

lemma length_lm_head: "length (lm_head m x) = vocab_size (config m)"
  by (simp add: lm_head_def nn_linear_def floats_def split: option.splits)

lemma reals2_length: "reals2 x = Some r \<Longrightarrow> length r = length x"
  by (induction x arbitrary: r) (auto split: option.splits)

lemma length_MolGPTTransformer:
  "L = length x \<Longrightarrow> length (MolGPTTransformer_forward m (generate_causal_mask L) x) = length x"
  by (auto simp: MolGPTTransformer_forward_def Let_def length_transformer_encoder_aux reals2_length
      split: option.splits)

lemma length_example_logits: "length (example_logits m te de) = length te"
  by (simp add: example_logits_def Let_def length_MolGPTTransformer)

lemma example_logits_width: "row \<in> set (example_logits m te de) \<Longrightarrow> length row = vocab_size (config m)"
  by (auto simp: example_logits_def Let_def length_lm_head dest!: in_set_dropD)

text \<open>The logits of a prefix of the tokens are the prefix of the logits.\<close>

lemma example_logits_prefix:
  assumes "n \<le> length te"
  shows "take n (example_logits m te de) = example_logits m (take n te) de"
proof (cases "reals2 de")
  case (Some d)
  then have de: "de = floats2 d" by (rule reals2_Some_floats2)
  have x: "reals2 (de @ floats2 t) = Some (d @ t)" for t
    by (simp add: reals2_append Some)
  have ld: "length de = length d" by (simp add: de)
  let ?enc = "\<lambda>k y. transformer_encoder (embedding_dim (config m)) (n_heads (config m))
                (feedforward_dim (config m)) (map (encoder_layers m) [0..<n_layers (config m)])
                (generate_causal_mask k) y"
  have A: "example_logits m t de
           = drop (length d) (map (lm_head m) (floats2 (?enc (length d + length t) (d @ t))))" for t
    by (simp add: example_logits_def Let_def x ld MolGPTTransformer_forward_def)
  have "take (length d + n) (?enc (length (d @ te)) (d @ te)) = ?enc (length d + n) (take (length d + n) (d @ te))"
    using assms by (intro transformer_encoder_prefix) simp
  then have p: "take (length d + n) (?enc (length d + length te) (d @ te)) = ?enc (length d + n) (d @ take n te)"
    by simp
  have "take n (drop (length d) (map (lm_head m) (floats2 Y)))
        = drop (length d) (map (lm_head m) (floats2 (take (length d + n) Y)))" for Y
    by (simp add: take_drop add.commute take_map take_floats2)
  with p assms show ?thesis by (simp add: A min_def)
next
  case None
  then have x: "reals2 (de @ floats2 t) = None" for t by (simp add: reals2_append)
  have A: "example_logits m t de
           = map (lm_head m) (if n_layers (config m) = 0 then floats2 t
                              else map (map (\<lambda>a. NaN)) (floats2 t))" for t
    by (simp add: example_logits_def Let_def x MolGPTTransformer_forward_def drop_map)
  show ?thesis by (simp add: A take_map take_floats2)
qed

section \<open>The forward pass\<close>

lemma map_result_Inr_length: "map_result f xs = Inr ys \<Longrightarrow> length ys = length xs"
  by (induction xs arbitrary: ys) (auto split: sum.splits)

lemma map_result_Inr_nth:
  "map_result f xs = Inr ys \<Longrightarrow> i < length xs \<Longrightarrow> f (xs ! i) = Inr (ys ! i)"
  by (induction xs arbitrary: ys i) (auto split: sum.splits simp: nth_Cons')

lemma map_result_take:
  "map_result f xs = Inr ys \<Longrightarrow> map_result f (take n xs) = Inr (take n ys)"
  by (induction xs arbitrary: ys n) (auto split: sum.splits simp: take_Cons')

lemma map_result_total:
  "\<forall>x \<in> set xs. \<exists>y. f x = Inr y \<Longrightarrow> \<exists>ys. map_result f xs = Inr ys"
  by (induction xs) auto

lemma map_result_Inr_D:
  "map_result f xs = Inr ys \<Longrightarrow> x \<in> set xs \<Longrightarrow> \<exists>y. f x = Inr y"
  by (induction xs arbitrary: ys) (auto split: sum.splits)

lemma embeddings_length: "MolGPTEmbeddings_forward m ids = Inr te \<Longrightarrow> length te = length ids"
  by (auto simp: MolGPTEmbeddings_forward_def Let_def split: sum.splits dest!: map_result_Inr_length)

lemma embeddings_take:
  assumes "MolGPTEmbeddings_forward m ids = Inr te"
  shows "MolGPTEmbeddings_forward m (take n ids) = Inr (take n te)"
proof -
  let ?T = "nn_embedding (vocab_size (config m)) (embedding_dim (config m)) (token_embeddings m)"
  let ?P = "nn_embedding (max_position_embeddings (config m)) (embedding_dim (config m))
              (position_embeddings m)"
  from assms obtain tok where t: "map_result ?T ids = Inr tok"
    by (cases "map_result ?T ids") (simp_all add: MolGPTEmbeddings_forward_def Let_def)
  with assms obtain pos where p: "map_result ?P (map int [0..<length ids]) = Inr pos"
    by (cases "map_result ?P (map int [0..<length ids])")
       (simp_all add: MolGPTEmbeddings_forward_def Let_def)
  from assms t p have te: "te = map2 (map2 (+)) tok pos"
    by (simp add: MolGPTEmbeddings_forward_def Let_def)
  have u: "map int [0..<length (take n ids)] = take n (map int [0..<length ids])"
    by (simp add: take_map min_def)
  from map_result_take[OF t, of n] map_result_take[OF p, of n]
  show ?thesis
    unfolding MolGPTEmbeddings_forward_def Let_def u
    by (simp add: te take_map take_zip)
qed

lemma embeddings_accepted:
  "(\<exists>te. MolGPTEmbeddings_forward m ids = Inr te) \<longleftrightarrow> accepted_ids m ids"
proof
  assume "\<exists>te. MolGPTEmbeddings_forward m ids = Inr te"
  then obtain tok pos where
    t: "map_result (nn_embedding (vocab_size (config m)) (embedding_dim (config m)) (token_embeddings m)) ids = Inr tok"
    and p: "map_result (nn_embedding (max_position_embeddings (config m)) (embedding_dim (config m))
              (position_embeddings m)) (map int [0..<length ids]) = Inr pos"
    by (auto simp: MolGPTEmbeddings_forward_def Let_def split: sum.splits)
  have "0 \<le> i \<and> i < int (vocab_size (config m))" if "i \<in> set ids" for i
    using map_result_Inr_D[OF t that] by (auto simp: nn_embedding_def split: if_splits)
  moreover have "length ids \<le> max_position_embeddings (config m)"
  proof (rule ccontr)
    assume "\<not> ?thesis"
    then have "int (max_position_embeddings (config m)) \<in> set (map int [0..<length ids])" by auto
    from map_result_Inr_D[OF p this] show False by (auto simp: nn_embedding_def)
  qed
  ultimately show "accepted_ids m ids" by (simp add: accepted_ids_def list_all_iff)
next
  assume a: "accepted_ids m ids"
  then have "\<exists>tok. map_result (nn_embedding (vocab_size (config m)) (embedding_dim (config m)) (token_embeddings m)) ids = Inr tok"
    by (intro map_result_total) (auto simp: accepted_ids_def list_all_iff nn_embedding_def)
  moreover from a have "\<exists>pos. map_result (nn_embedding (max_position_embeddings (config m)) (embedding_dim (config m))
              (position_embeddings m)) (map int [0..<length ids]) = Inr pos"
    by (intro map_result_total) (auto simp: accepted_ids_def nn_embedding_def)
  ultimately show "\<exists>te. MolGPTEmbeddings_forward m ids = Inr te"
    by (auto simp: MolGPTEmbeddings_forward_def Let_def)
qed

lemma forward_Inr_D:
  assumes "forward m ids desc labels = Inr out"
  shows "\<exists>tes. map_result (MolGPTEmbeddings_forward m) ids = Inr tes \<and>
           list_all (\<lambda>row. length row = desc_size (config m)) desc \<and> length desc = length ids \<and>
           logits out = map2 (example_logits m) tes (map (encode_row (descriptor_encoder m)) desc)"
proof (cases "map_result (MolGPTEmbeddings_forward m) ids")
  case (Inl e)
  with assms show ?thesis by (simp add: forward_def)
next
  case (Inr tes)
  then have lt: "length tes = length ids" by (rule map_result_Inr_length)
  show ?thesis
  proof (cases "list_all (\<lambda>row. length row = desc_size (config m)) desc")
    case False
    with assms Inr show ?thesis
      by (simp add: forward_def DescriptorEncoder_forward_def descriptor_encoder_def)
  next
    case True
    then have d: "DescriptorEncoder_forward (descriptor_encoder m) desc
                  = Inr (map (encode_row (descriptor_encoder m)) desc)"
      by (simp add: DescriptorEncoder_forward_def descriptor_encoder_def)
    show ?thesis
    proof (cases "length desc = length ids")
      case False
      with assms Inr d lt show ?thesis by (simp add: forward_def)
    next
      case l: True
      have "logits out = map2 (example_logits m) tes (map (encode_row (descriptor_encoder m)) desc)"
      proof (cases labels)
        case None
        with assms Inr d lt l show ?thesis by (auto simp: forward_def Let_def)
      next
        case (Some ls)
        show ?thesis
        proof (cases "cross_entropy_loss (padding_idx (config m))
                        (concat (map2 (example_logits m) tes (map (encode_row (descriptor_encoder m)) desc)))
                        (concat ls)")
          case (Inl e)
          with assms Inr d lt l Some show ?thesis
            by (simp add: forward_def Let_def split: if_splits)
        next
          case r: (Inr v)
          with assms Inr d lt l Some show ?thesis
            by (auto simp add: forward_def Let_def split: if_splits)
        qed
      qed
      with Inr True l show ?thesis by simp
    qed
  qed
qed

lemma forward_returns:
  assumes "list_all (accepted_ids m) ids"
    and "list_all (\<lambda>row. length row = desc_size (config m)) desc"
    and "length desc = length ids"
  shows "\<exists>tes. map_result (MolGPTEmbeddings_forward m) ids = Inr tes \<and>
           forward m ids desc None = Inr \<lparr>loss = None, logits = map2 (example_logits m) tes
             (map (encode_row (descriptor_encoder m)) desc)\<rparr>"
proof -
  from assms(1) have "\<forall>row \<in> set ids. \<exists>te. MolGPTEmbeddings_forward m row = Inr te"
    by (simp add: list_all_iff embeddings_accepted)
  then obtain tes where t: "map_result (MolGPTEmbeddings_forward m) ids = Inr tes"
    using map_result_total by blast
  then have "length tes = length ids" by (rule map_result_Inr_length)
  with t assms(2,3) show ?thesis
    by (simp add: forward_def DescriptorEncoder_forward_def descriptor_encoder_def Let_def)
qed

text \<open>
  Claim C1 (causal-mask noninterference). Let two forward passes of a model on the same
  descriptors return. If the token rows of example \<open>b\<close> agree at the positions \<open>0..i\<close>,
  the logits of example \<open>b\<close> at position \<open>i\<close> are the same in both, whatever the tokens
  after position \<open>i\<close> (and the other examples, and the labels) are.
\<close>

theorem causal_noninterference:
  assumes "forward m ids1 desc labels1 = Inr out1" and "forward m ids2 desc labels2 = Inr out2"
    and "b < length desc"
    and "i < length (ids1 ! b)" and "i < length (ids2 ! b)"
    and "take (Suc i) (ids1 ! b) = take (Suc i) (ids2 ! b)"
  shows "logits out1 ! b ! i = logits out2 ! b ! i"
proof -
  let ?des = "map (encode_row (descriptor_encoder m)) desc"
  from forward_Inr_D[OF assms(1)] obtain tes1 where
    t1: "map_result (MolGPTEmbeddings_forward m) ids1 = Inr tes1" and l1: "length desc = length ids1"
    and o1: "logits out1 = map2 (example_logits m) tes1 ?des" by blast
  from forward_Inr_D[OF assms(2)] obtain tes2 where
    t2: "map_result (MolGPTEmbeddings_forward m) ids2 = Inr tes2" and l2: "length desc = length ids2"
    and o2: "logits out2 = map2 (example_logits m) tes2 ?des" by blast
  from assms(3) l1 l2 have b: "b < length ids1" "b < length ids2" by simp_all
  from map_result_Inr_length[OF t1] map_result_Inr_length[OF t2] b
  have bt: "b < length tes1" "b < length tes2" by simp_all
  from map_result_Inr_nth[OF t1 b(1)] have e1: "MolGPTEmbeddings_forward m (ids1 ! b) = Inr (tes1 ! b)" .
  from map_result_Inr_nth[OF t2 b(2)] have e2: "MolGPTEmbeddings_forward m (ids2 ! b) = Inr (tes2 ! b)" .
  from embeddings_take[OF e1, of "Suc i"] embeddings_take[OF e2, of "Suc i"] assms(6)
  have tk: "take (Suc i) (tes1 ! b) = take (Suc i) (tes2 ! b)" by simp
  from embeddings_length[OF e1] embeddings_length[OF e2] assms(4,5)
  have il: "Suc i \<le> length (tes1 ! b)" "Suc i \<le> length (tes2 ! b)" by simp_all
  have p: "example_logits m te de ! i = take (Suc i) (example_logits m te de) ! i" for te de
    by simp
  have "example_logits m (tes1 ! b) (?des ! b) ! i = example_logits m (tes2 ! b) (?des ! b) ! i"
    unfolding p[of "tes1 ! b"] p[of "tes2 ! b"]
      example_logits_prefix[OF il(1)] example_logits_prefix[OF il(2)] tk ..
  with o1 o2 bt assms(3) show ?thesis by simp
qed

theorem causal_noninterference_witness:
  "\<exists>out1 out2.
     forward tiny_model [[1, 2, 1]] [[3, 5]] None = Inr out1 \<and>
     forward tiny_model [[1, 0]] [[3, 5]] None = Inr out2 \<and>
     take (Suc 0) [1, 2, 1] = take (Suc 0) [1, 0 :: int] \<and>
     logits out1 ! 0 ! 0 = logits out2 ! 0 ! 0"
proof -
  have "\<exists>tes. map_result (MolGPTEmbeddings_forward tiny_model) [[1, 2, 1]] = Inr tes \<and>
          forward tiny_model [[1, 2, 1]] [[3, 5]] None = Inr \<lparr>loss = None, logits = map2 (example_logits tiny_model) tes
             (map (encode_row (descriptor_encoder tiny_model)) [[3, 5]])\<rparr>"
    by (rule forward_returns) (simp_all add: accepted_ids_def tiny_simps)
  then obtain out1 where f1: "forward tiny_model [[1, 2, 1]] [[3, 5]] None = Inr out1" by blast
  have "\<exists>tes. map_result (MolGPTEmbeddings_forward tiny_model) [[1, 0]] = Inr tes \<and>
          forward tiny_model [[1, 0]] [[3, 5]] None = Inr \<lparr>loss = None, logits = map2 (example_logits tiny_model) tes
             (map (encode_row (descriptor_encoder tiny_model)) [[3, 5]])\<rparr>"
    by (rule forward_returns) (simp_all add: accepted_ids_def tiny_simps)
  then obtain out2 where f2: "forward tiny_model [[1, 0]] [[3, 5]] None = Inr out2" by blast
  from causal_noninterference[OF f1 f2, of 0 0] f1 f2 show ?thesis by simp
qed

text \<open>
  Claim C5 (shape of the logits). When the forward pass returns, the logits have one
  entry per example of the batch; the entry of an example has one position per token of
  its row, and every position has \<open>vocab_size\<close> scores. The forward pass without labels
  returns for every batch of as many descriptor vectors of the configured size as token
  rows, the rows of ids below \<open>vocab_size\<close> and not longer than
  \<open>max_position_embeddings\<close>.
\<close>

theorem logits_shape:
  "(forward m input_ids descriptors labels = Inr out \<longrightarrow>
      length (logits out) = length input_ids \<and>
      (\<forall>b < length input_ids.
         length (logits out ! b) = length (input_ids ! b) \<and>
         (\<forall>row \<in> set (logits out ! b). length row = vocab_size (config m)))) \<and>
   (list_all (accepted_ids m) input_ids \<and>
    list_all (\<lambda>row. length row = desc_size (config m)) descriptors \<and>
    length descriptors = length input_ids \<longrightarrow>
      (\<exists>out'. forward m input_ids descriptors None = Inr out'))"
proof (intro conjI impI allI)
  assume f: "forward m input_ids descriptors labels = Inr out"
  let ?des = "map (encode_row (descriptor_encoder m)) descriptors"
  from forward_Inr_D[OF f] obtain tes where
    t: "map_result (MolGPTEmbeddings_forward m) input_ids = Inr tes"
    and l: "length descriptors = length input_ids"
    and o: "logits out = map2 (example_logits m) tes ?des" by blast
  from map_result_Inr_length[OF t] have lt: "length tes = length input_ids" .
  with l o show "length (logits out) = length input_ids" by simp
  fix b assume b: "b < length input_ids"
  with o lt l have ob: "logits out ! b = example_logits m (tes ! b) (?des ! b)" by simp
  from embeddings_length[OF map_result_Inr_nth[OF t b]]
  show "length (logits out ! b) = length (input_ids ! b)"
    by (simp add: ob length_example_logits)
  show "\<forall>row \<in> set (logits out ! b). length row = vocab_size (config m)"
    by (simp add: ob example_logits_width)
next
  assume "list_all (accepted_ids m) input_ids \<and>
    list_all (\<lambda>row. length row = desc_size (config m)) descriptors \<and>
    length descriptors = length input_ids"
  then show "\<exists>out'. forward m input_ids descriptors None = Inr out'"
    using forward_returns[of m input_ids descriptors] by blast
qed

theorem logits_shape_witness:
  "\<exists>out. forward tiny_model [[1, 2, 1], [0, 0, 2]] [[3, 5], [1, 1]] None = Inr out \<and>
     length (logits out) = 2 \<and> length (logits out ! 1) = 3 \<and> length (logits out ! 1 ! 2) = 3"
proof -
  have a: "list_all (accepted_ids tiny_model) [[1, 2, 1], [0, 0, 2]] \<and>
    list_all (\<lambda>row. length row = desc_size (config tiny_model)) [[3, 5], [1, 1]] \<and>
    length [[3, 5], [1, 1 :: real]] = length [[1, 2, 1], [0, 0, 2 :: int]]"
    by (simp add: accepted_ids_def tiny_simps)
  with logits_shape[of tiny_model "[[1, 2, 1], [0, 0, 2]]" "[[3, 5], [1, 1]]" None]
  obtain out where f: "forward tiny_model [[1, 2, 1], [0, 0, 2]] [[3, 5], [1, 1]] None = Inr out"
    by blast
  let ?ids = "[[1, 2, 1], [0, 0, 2 :: int]]"
  from logits_shape[of tiny_model ?ids "[[3, 5], [1, 1]]" None out] f
  have s: "length (logits out) = length ?ids \<and>
      (\<forall>b < length ?ids. length (logits out ! b) = length (?ids ! b) \<and>
         (\<forall>row \<in> set (logits out ! b). length row = vocab_size (config tiny_model)))"
    by blast
  then have "1 < length ?ids \<longrightarrow> length (logits out ! 1) = length (?ids ! 1) \<and>
         (\<forall>row \<in> set (logits out ! 1). length row = vocab_size (config tiny_model))"
    by blast
  then have l1: "length (logits out ! 1) = 3" and w: "\<forall>row \<in> set (logits out ! 1). length row = 3"
    by (simp_all add: tiny_simps)
  from l1 have "logits out ! 1 ! 2 \<in> set (logits out ! 1)" by simp
  with w have "length (logits out ! 1 ! 2) = 3" by blast
  moreover from s have "length (logits out) = 2" by simp
  ultimately show ?thesis using l1 f by blast
qed

section \<open>The loss\<close>

lemma float_sum_zero: "float_sum (Val 0 # xs) = float_sum xs"
  by (cases "float_sum xs") simp_all

lemma nll_sum_kept:
  "float_sum (map (\<lambda>(x, y). nll_term pad x y) ps)
   = float_sum (map (\<lambda>(x, y). ce_term x y) (filter (\<lambda>(x, y). y \<noteq> pad) ps))"
proof (induction ps)
  case Nil
  then show ?case by simp
next
  case (Cons p ps)
  obtain x y where p: "p = (x, y)" by (cases p)
  show ?case
  proof (cases "y = pad")
    case True
    with Cons p show ?thesis by (simp add: nll_term_def split: float.splits)
  next
    case False
    then have "nll_term pad x y = ce_term x y" by (simp add: nll_term_def ce_term_def)
    with Cons p False show ?thesis by (cases "ce_term x y") simp_all
  qed
qed

lemma count_kept:
  "length xs = length ys \<Longrightarrow>
   length (filter (\<lambda>y. y \<noteq> pad) ys) = length (filter (\<lambda>(x, y). y \<noteq> pad) (zip xs ys))"
  by (induction xs ys rule: list_induct2) simp_all

lemma cross_entropy_loss_mean:
  assumes "cross_entropy_loss pad rows labels = Inr l"
  shows "l = masked_mean_ce pad rows labels"
proof -
  from assms have len: "length rows = length labels"
    by (simp add: cross_entropy_loss_def split: if_splits)
  with assms have "l = float_div (float_sum (map2 (nll_term pad) rows labels))
                         (length (filter (\<lambda>y. y \<noteq> pad) labels))"
    by (simp add: cross_entropy_loss_def split: if_splits)
  then show ?thesis
    by (simp add: masked_mean_ce_def Let_def nll_sum_kept count_kept[OF len])
qed

lemma masked_mean_all_padding:
  "list_all (\<lambda>y. y = pad) labels \<Longrightarrow> masked_mean_ce pad rows labels = NaN"
proof -
  assume "list_all (\<lambda>y. y = pad) labels"
  then have "filter (\<lambda>(x, y). y \<noteq> pad) (zip rows labels) = []"
    by (auto simp: filter_empty_conv list_all_iff dest: set_zip_rightD)
  then show ?thesis by (simp add: masked_mean_ce_def)
qed

lemma if_Inl_neq_Inr: "((if c then Inl a else Inl b) = Inr x) = False"
  by simp

lemma forward_with_labels:
  assumes "map_result (MolGPTEmbeddings_forward m) ids = Inr tes"
    and "list_all (\<lambda>row. length row = desc_size (config m)) desc"
    and "length desc = length ids"
  shows "forward m ids desc (Some labels) =
         (let token_logits = map2 (example_logits m) tes (map (encode_row (descriptor_encoder m)) desc) in
          if \<not> view_compatible (length token_logits)
                 (case token_logits of [] \<Rightarrow> 0 | ex # _ \<Rightarrow> length ex)
                 (desc_size (config m)) (vocab_size (config m))
          then Inl RuntimeError
          else (case cross_entropy_loss (padding_idx (config m)) (concat token_logits) (concat labels) of
                  Inl e \<Rightarrow> Inl e
                | Inr l \<Rightarrow> Inr \<lparr>loss = Some l, logits = token_logits\<rparr>))"
proof -
  from map_result_Inr_length[OF assms(1)] assms(3)
  have lt: "length (map (encode_row (descriptor_encoder m)) desc) = length tes" by simp
  from assms(2) have de: "DescriptorEncoder_forward (descriptor_encoder m) desc
                          = Inr (map (encode_row (descriptor_encoder m)) desc)"
    by (simp add: DescriptorEncoder_forward_def descriptor_encoder_def)
  show ?thesis
    unfolding forward_def assms(1) de sum.case lt option.case
    by (simp only: simp_thms if_False)
qed

lemma forward_loss:
  assumes "forward m ids desc (Some labels) = Inr out"
  shows "loss out = Some (masked_mean_ce (padding_idx (config m)) (concat (logits out)) (concat labels))"
proof -
  let ?tl = "map2 (example_logits m) tes (map (encode_row (descriptor_encoder m)) desc)"
  from forward_Inr_D[OF assms] obtain tes where
    t: "map_result (MolGPTEmbeddings_forward m) ids = Inr tes"
    and d: "list_all (\<lambda>row. length row = desc_size (config m)) desc"
    and l: "length desc = length ids" by blast
  let ?tl = "map2 (example_logits m) tes (map (encode_row (descriptor_encoder m)) desc)"
  let ?ce = "cross_entropy_loss (padding_idx (config m)) (concat ?tl) (concat labels)"
  from assms have f: "(if \<not> view_compatible (length ?tl)
                 (case ?tl of [] \<Rightarrow> 0 | ex # _ \<Rightarrow> length ex)
                 (desc_size (config m)) (vocab_size (config m))
          then Inl RuntimeError
          else (case ?ce of Inl e \<Rightarrow> Inl e | Inr l \<Rightarrow> Inr \<lparr>loss = Some l, logits = ?tl\<rparr>)) = Inr out"
    unfolding forward_with_labels[OF t d l] Let_def .
  show ?thesis
  proof (cases ?ce)
    case (Inl e)
    from f have False unfolding Inl sum.case by (simp only: if_Inl_neq_Inr)
    then show ?thesis ..
  next
    case (Inr v)
    from f have "Inr \<lparr>loss = Some v, logits = ?tl\<rparr> = (Inr out :: error + CausalLMOutput)"
      unfolding Inr sum.case by (simp only: sum.distinct split: if_splits)
    then have "out = \<lparr>loss = Some v, logits = ?tl\<rparr>" by simp
    with cross_entropy_loss_mean[OF Inr] show ?thesis by simp
  qed
qed

lemma length_concat_rect: "\<forall>x \<in> set xs. length x = T \<Longrightarrow> length (concat xs) = length xs * T"
  by (induction xs) simp_all

text \<open>When the forward pass with labels returns.\<close>

lemma forward_labels_returns:
  assumes "list_all (accepted_ids m) ids"
    and "list_all (\<lambda>row. length row = desc_size (config m)) desc"
    and "length desc = length ids"
    and "\<forall>row \<in> set ids. length row = T"
    and "view_compatible (length ids) T (desc_size (config m)) (vocab_size (config m))"
    and "length (concat labels) = length ids * T"
    and "\<forall>y \<in> set (concat labels). y = padding_idx (config m) \<or> (0 \<le> y \<and> y < int (vocab_size (config m)))"
  shows "\<exists>out. forward m ids desc (Some labels) = Inr out"
proof -
  let ?des = "map (encode_row (descriptor_encoder m)) desc"
  from forward_returns[OF assms(1-3)] obtain tes where
    t: "map_result (MolGPTEmbeddings_forward m) ids = Inr tes" by blast
  from map_result_Inr_length[OF t] have lt: "length tes = length ids" .
  let ?tl = "map2 (example_logits m) tes ?des"
  from assms(2) have de: "DescriptorEncoder_forward (descriptor_encoder m) desc = Inr ?des"
    by (simp add: DescriptorEncoder_forward_def descriptor_encoder_def)
  have ltl: "length ?tl = length ids" using lt assms(3) by simp
  have nth_tl: "?tl ! b = example_logits m (tes ! b) (?des ! b)" if "b < length ids" for b
    using that lt assms(3) by simp
  have rows: "length ex = T" if "ex \<in> set ?tl" for ex
  proof -
    from that obtain b where b: "b < length ids" and ex: "ex = ?tl ! b"
      unfolding in_set_conv_nth ltl by blast
    from embeddings_length[OF map_result_Inr_nth[OF t b]] assms(4) b
    have "length (tes ! b) = T" by simp
    then show ?thesis unfolding ex nth_tl[OF b] by (simp add: length_example_logits)
  qed
  have width: "length row = vocab_size (config m)" if "row \<in> set (concat ?tl)" for row
  proof -
    from that obtain ex where e: "ex \<in> set ?tl" and r: "row \<in> set ex" by auto
    from e obtain b where b: "b < length ids" and ex: "ex = ?tl ! b"
      unfolding in_set_conv_nth ltl by blast
    from r show ?thesis unfolding ex nth_tl[OF b] by (rule example_logits_width)
  qed
  have T': "(case ?tl of [] \<Rightarrow> 0 | ex # _ \<Rightarrow> length ex) = (if ids = [] then 0 else T)"
  proof (cases ?tl)
    case Nil
    with ltl have "ids = []" by (simp only: list.size length_0_conv[symmetric])
    with Nil show ?thesis by (simp only: list.case if_True simp_thms)
  next
    case (Cons ex exs)
    with ltl have "ids \<noteq> []" by (auto simp only: list.size length_0_conv[symmetric])
    moreover from Cons have "ex \<in> set ?tl" by (simp only: list.set insertI1)
    ultimately show ?thesis using rows[of ex] Cons by (simp only: list.case if_False simp_thms)
  qed
  have vc: "view_compatible (length ?tl) (case ?tl of [] \<Rightarrow> 0 | ex # _ \<Rightarrow> length ex)
              (desc_size (config m)) (vocab_size (config m))"
    unfolding T' ltl using assms(5) by (cases "ids = []") (simp_all add: view_compatible_def)
  have "length (concat ?tl) = length ?tl * T"
    by (rule length_concat_rect) (simp add: rows)
  with assms(6) ltl have len: "length (concat ?tl) = length (concat labels)" by simp
  have "y = padding_idx (config m) \<or> (0 \<le> y \<and> y < int (length x))"
    if "(x, y) \<in> set (zip (concat ?tl) (concat labels))" for x y
    using set_zip_leftD[OF that] set_zip_rightD[OF that] width[of x] assms(7) by auto
  then have rng: "\<not> list_ex (\<lambda>(x, y). y \<noteq> padding_idx (config m) \<and> \<not> (0 \<le> y \<and> y < int (length x)))
               (zip (concat ?tl) (concat labels))"
    unfolding list_ex_iff by blast
  from len rng obtain v where
    ce: "cross_entropy_loss (padding_idx (config m)) (concat ?tl) (concat labels) = Inr v"
    by (simp add: cross_entropy_loss_def)
  have "forward m ids desc (Some labels) = Inr \<lparr>loss = Some v, logits = ?tl\<rparr>"
    unfolding forward_with_labels[OF t assms(2,3)] Let_def ce sum.case
    using vc by (simp only: if_not_P if_P not_not)
  then show ?thesis by blast
qed

text \<open>
  Claim C3, as amended (the loss leaves out the positions labelled with the padding
  index). Whenever the forward pass with labels returns, its loss is the average of the
  cross-entropy over the positions whose label differs from the padding index. For
  labels that are all the padding index there is no such position, and the loss is NaN
  (the quotient 0/0), not zero.
\<close>

theorem loss_excludes_padding:
  assumes "forward m input_ids descriptors (Some labels) = Inr out"
  shows "loss out = Some (masked_mean_ce (padding_idx (config m)) (concat (logits out)) (concat labels)) \<and>
         (list_all (\<lambda>y. y = padding_idx (config m)) (concat labels) \<longrightarrow> loss out = Some NaN)"
  using forward_loss[OF assms] by (simp add: masked_mean_all_padding)

lemma tiny_labels_return:
  assumes "length ls = 2" and "\<forall>y \<in> set ls. y = 0 \<or> (0 \<le> y \<and> y < 3)"
  shows "\<exists>out. forward tiny_model [[1, 2]] [[3, 5]] (Some [ls]) = Inr out"
  using assms
  by (intro forward_labels_returns[where T=2])
     (simp_all add: accepted_ids_def tiny_simps view_compatible_def)

theorem loss_excludes_padding_witness:
  "\<exists>out. forward tiny_model [[1, 2]] [[3, 5]] (Some [[2, 0]]) = Inr out \<and>
     loss out = Some (masked_mean_ce 0 (concat (logits out)) [2, 0])"
proof -
  from tiny_labels_return[of "[2, 0]"] obtain out where
    f: "forward tiny_model [[1, 2]] [[3, 5]] (Some [[2, 0]]) = Inr out" by auto
  from loss_excludes_padding[OF f] f show ?thesis by (auto simp: tiny_simps)
qed

text \<open>
  A batch of one example whose two labels are the padding index 0: the forward pass
  returns, and the loss is NaN.
\<close>

theorem all_padding_loss_counterexample:
  "map_sum id loss (forward tiny_model [[1, 2]] [[3, 5]] (Some [[0, 0]])) = Inr (Some NaN) \<and>
   padding_idx (config tiny_model) = 0"
proof -
  from tiny_labels_return[of "[0, 0]"] obtain out where
    f: "forward tiny_model [[1, 2]] [[3, 5]] (Some [[0, 0]]) = Inr out" by auto
  from forward_loss[OF f] have "loss out = Some NaN"
    by (simp add: tiny_simps masked_mean_all_padding)
  with f show ?thesis by (simp add: tiny_simps)
qed

section \<open>Generation\<close>

lemma forward_logits_length:
  "forward m ids desc labels = Inr out \<Longrightarrow> length (logits out) = length ids"
  by (drule forward_Inr_D) (auto dest: map_result_Inr_length)

lemma map2_snoc:
  assumes "length nt = length g" and "\<forall>row \<in> set g. length row = T"
  shows "length (map2 (\<lambda>row t. row @ [t]) g nt) = length g"
    and "\<forall>row \<in> set (map2 (\<lambda>row t. row @ [t]) g nt). length row = Suc T"
    and "map (take T) (map2 (\<lambda>row t. row @ [t]) g nt) = g"
    and "map (\<lambda>row. row ! T) (map2 (\<lambda>row t. row @ [t]) g nt) = nt"
proof -
  show "length (map2 (\<lambda>row t. row @ [t]) g nt) = length g" using assms(1) by simp
  show "\<forall>row \<in> set (map2 (\<lambda>row t. row @ [t]) g nt). length row = Suc T"
    using assms(2) by (auto simp: set_zip)
  show "map (take T) (map2 (\<lambda>row t. row @ [t]) g nt) = g"
    using assms by (intro nth_equalityI) simp_all
  show "map (\<lambda>row. row ! T) (map2 (\<lambda>row t. row @ [t]) g nt) = nt"
    using assms by (intro nth_equalityI) (simp_all add: nth_append)
qed

lemma generate_loop_Suc:
  assumes "generate_loop m desc (Suc n) g = Inr out"
  shows "\<exists>outputs next_token.
           forward m g desc None = Inr outputs \<and>
           map_result next_token_of (logits outputs) = Inr next_token \<and>
           (if list_all (\<lambda>t. t = padding_idx (config m)) next_token
            then out = map2 (\<lambda>row t. row @ [t]) g next_token
            else generate_loop m desc n (map2 (\<lambda>row t. row @ [t]) g next_token) = Inr out)"
proof (cases "forward m g desc None")
  case (Inl e)
  with assms show ?thesis by simp
next
  case f: (Inr outputs)
  show ?thesis
  proof (cases "map_result next_token_of (logits outputs)")
    case (Inl e)
    with assms f show ?thesis by simp
  next
    case (Inr next_token)
    with assms f show ?thesis by (simp add: Let_def split: if_splits)
  qed
qed

text \<open>
  What the loop returns: \<open>k\<close> columns are appended to the \<open>T\<close> columns it started from;
  it ran out of iterations or stopped after a column of padding indices; no earlier
  column was one; and column \<open>T + j\<close> holds the tokens that the forward pass on the
  columns before it predicts.
\<close>

lemma generate_loop_spec:
  assumes "generate_loop m desc n g = Inr out" and "\<forall>row \<in> set g. length row = T"
  shows "\<exists>k \<le> n. length out = length g \<and> (\<forall>row \<in> set out. length row = T + k) \<and>
           map (take T) out = g \<and>
           (k < n \<longrightarrow> 0 < k \<and> (\<forall>row \<in> set out. row ! (T + k - 1) = padding_idx (config m))) \<and>
           (\<forall>j. Suc j < k \<longrightarrow> (\<exists>row \<in> set out. row ! (T + j) \<noteq> padding_idx (config m))) \<and>
           (\<forall>j < k. \<exists>outputs. forward m (map (take (T + j)) out) desc None = Inr outputs \<and>
              map_result next_token_of (logits outputs) = Inr (map (\<lambda>row. row ! (T + j)) out))"
  using assms
proof (induction n arbitrary: g T)
  case 0
  then have "out = g" by simp
  moreover from 0(2) have "map (take T) g = g" by (intro map_idI) simp
  ultimately show ?case using 0(2) by simp
next
  case (Suc n)
  let ?pad = "padding_idx (config m)"
  from generate_loop_Suc[OF Suc.prems(1)] obtain outputs nt where
    f: "forward m g desc None = Inr outputs"
    and nt: "map_result next_token_of (logits outputs) = Inr nt"
    and r: "if list_all (\<lambda>t. t = ?pad) nt then out = map2 (\<lambda>row t. row @ [t]) g nt
            else generate_loop m desc n (map2 (\<lambda>row t. row @ [t]) g nt) = Inr out"
    by blast
  let ?g' = "map2 (\<lambda>row t. row @ [t]) g nt"
  from map_result_Inr_length[OF nt] forward_logits_length[OF f]
  have ln: "length nt = length g" by simp
  note s = map2_snoc[OF ln Suc.prems(2)]
  show ?case
  proof (cases "list_all (\<lambda>t. t = ?pad) nt")
    case True
    with r have o: "out = ?g'" by simp
    have img: "(\<lambda>row. row ! T) ` set ?g' = set nt"
      unfolding list.set_map[symmetric] s(4) ..
    from True have "\<forall>t \<in> set nt. t = ?pad" unfolding list_all_iff .
    with img have col: "\<forall>row \<in> set ?g'. row ! T = ?pad" by (metis imageI)
    have st: "forward m (map (take (T + 0)) ?g') desc None = Inr outputs \<and>
              map_result next_token_of (logits outputs) = Inr (map (\<lambda>row. row ! (T + 0)) ?g')"
      using f nt s(3,4) by simp
    show ?thesis
    proof (intro exI[of _ 1] conjI)
      show "1 \<le> Suc n" by simp
      show "length out = length g" using o s(1) by simp
      show "\<forall>row \<in> set out. length row = T + 1" using o s(2) by simp
      show "map (take T) out = g" using o s(3) by simp
      show "1 < Suc n \<longrightarrow> 0 < (1::nat) \<and> (\<forall>row \<in> set out. row ! (T + 1 - 1) = ?pad)"
        using o col by simp
      show "\<forall>j. Suc j < 1 \<longrightarrow> (\<exists>row \<in> set out. row ! (T + j) \<noteq> ?pad)" by simp
      show "\<forall>j < 1. \<exists>outputs. forward m (map (take (T + j)) out) desc None = Inr outputs \<and>
              map_result next_token_of (logits outputs) = Inr (map (\<lambda>row. row ! (T + j)) out)"
        using st o by auto
    qed
  next
    case False
    with r have loop: "generate_loop m desc n ?g' = Inr out" by simp
    from Suc.IH[OF loop s(2)] obtain k where
      k: "k \<le> n" and lo: "length out = length ?g'"
      and rows: "\<forall>row \<in> set out. length row = Suc T + k"
      and pre: "map (take (Suc T)) out = ?g'"
      and stop: "k < n \<longrightarrow> 0 < k \<and> (\<forall>row \<in> set out. row ! (Suc T + k - 1) = ?pad)"
      and early: "\<forall>j. Suc j < k \<longrightarrow> (\<exists>row \<in> set out. row ! (Suc T + j) \<noteq> ?pad)"
      and steps: "\<forall>j < k. \<exists>outputs. forward m (map (take (Suc T + j)) out) desc None = Inr outputs \<and>
              map_result next_token_of (logits outputs) = Inr (map (\<lambda>row. row ! (Suc T + j)) out)"
      by blast
    have "map (take T) out = map (take T) (map (take (Suc T)) out)" by (simp add: min_def)
    with pre s(3) have pT: "map (take T) out = g" by simp
    have "map (\<lambda>row. row ! T) out = map (\<lambda>row. row ! T) (map (take (Suc T)) out)" by simp
    with pre s(4) have cT: "map (\<lambda>row. row ! T) out = nt" by simp
    from False obtain t where t: "t \<in> set nt" "t \<noteq> ?pad" unfolding list_all_iff by blast
    have "set nt = (\<lambda>row. row ! T) ` set out"
      unfolding list.set_map[symmetric] cT ..
    with t(1) obtain row where "row \<in> set out" "t = row ! T" by auto
    with t(2) have e0: "\<exists>row \<in> set out. row ! T \<noteq> ?pad" by blast
    show ?thesis
    proof (intro exI[of _ "Suc k"] conjI allI impI)
      show "Suc k \<le> Suc n" using k by simp
      show "length out = length g" using lo s(1) by simp
      show "\<forall>row \<in> set out. length row = T + Suc k" using rows by simp
      show "map (take T) out = g" by (rule pT)
      show "0 < Suc k" by simp
      show "\<forall>row \<in> set out. row ! (T + Suc k - 1) = ?pad" if "Suc k < Suc n"
        using that stop by simp
      show "\<exists>row \<in> set out. row ! (T + j) \<noteq> ?pad" if "Suc j < Suc k" for j
      proof (cases j)
        case 0
        with e0 show ?thesis by simp
      next
        case (Suc j')
        with that early have "\<exists>row \<in> set out. row ! (Suc T + j') \<noteq> ?pad" by simp
        with Suc show ?thesis by simp
      qed
      show "\<exists>outputs. forward m (map (take (T + j)) out) desc None = Inr outputs \<and>
              map_result next_token_of (logits outputs) = Inr (map (\<lambda>row. row ! (T + j)) out)"
        if "j < Suc k" for j
      proof (cases j)
        case 0
        with f nt pT cT show ?thesis by auto
      next
        case (Suc j')
        with that steps have "\<exists>outputs. forward m (map (take (Suc T + j')) out) desc None = Inr outputs \<and>
              map_result next_token_of (logits outputs) = Inr (map (\<lambda>row. row ! (Suc T + j')) out)"
          by simp
        with Suc show ?thesis by simp
      qed
    qed
  qed
qed

subsection \<open>When generation returns\<close>

lemma fold_max_in: "fold max xs (a::real) \<in> set (a # xs)"
proof (induction xs arbitrary: a)
  case Nil
  then show ?case by simp
next
  case (Cons x xs)
  from Cons.IH[of "max x a"] show ?case by (auto simp: max_def split: if_splits)
qed

lemma index_of_less: "\<exists>x \<in> set xs. P x \<Longrightarrow> index_of P xs < length xs"
  by (induction xs) auto

lemma reals_None_NaN: "reals xs = None \<Longrightarrow> NaN \<in> set xs"
  by (induction xs rule: reals.induct) auto

lemma argmax_range:
  assumes "xs \<noteq> []"
  shows "\<exists>k < length xs. argmax xs = Inr (int k)"
proof (cases "reals xs")
  case None
  then have "index_of (\<lambda>x. x = NaN) xs < length xs"
    by (intro index_of_less) (auto dest: reals_None_NaN)
  with assms None show ?thesis by (cases xs) (auto simp: argmax_def)
next
  case (Some r)
  from reals_length[OF Some] assms have r: "r \<noteq> []" by auto
  then have "fold max (tl r) (hd r) \<in> set r" using fold_max_in[of "tl r" "hd r"] by simp
  then have "index_of (\<lambda>x. x = fold max (tl r) (hd r)) r < length r"
    by (intro index_of_less) auto
  with reals_length[OF Some] assms Some show ?thesis by (cases xs) (auto simp: argmax_def)
qed

lemma next_token_range:
  assumes "ex \<noteq> []" and "\<forall>row \<in> set ex. length row = V" and "0 < V"
  shows "\<exists>t. next_token_of ex = Inr t \<and> 0 \<le> t \<and> t < int V"
proof -
  from assms(1) have "last ex \<in> set ex" by simp
  with assms(2,3) have l: "length (last ex) = V" "last ex \<noteq> []" by auto
  from argmax_range[OF l(2)] l(1) obtain k where "k < V" "argmax (last ex) = Inr (int k)" by auto
  with assms(1) show ?thesis by (cases ex) (auto simp: next_token_of_def)
qed

lemma map_result_total_with:
  "\<forall>x \<in> set xs. \<exists>y. f x = Inr y \<and> Q y \<Longrightarrow> \<exists>ys. map_result f xs = Inr ys \<and> (\<forall>y \<in> set ys. Q y)"
proof (induction xs)
  case Nil
  then show ?case by simp
next
  case (Cons x xs)
  then obtain y ys where "f x = Inr y" "Q y" "map_result f xs = Inr ys" "\<forall>y \<in> set ys. Q y"
    by auto
  then show ?case by simp
qed

lemma forward_logits_rows:
  assumes "forward m ids desc labels = Inr out" and "b < length ids"
  shows "length (logits out ! b) = length (ids ! b) \<and>
         (\<forall>row \<in> set (logits out ! b). length row = vocab_size (config m))"
proof -
  let ?des = "map (encode_row (descriptor_encoder m)) desc"
  from forward_Inr_D[OF assms(1)] obtain tes where
    t: "map_result (MolGPTEmbeddings_forward m) ids = Inr tes"
    and l: "length desc = length ids"
    and o: "logits out = map2 (example_logits m) tes ?des" by blast
  from map_result_Inr_length[OF t] have lt: "length tes = length ids" .
  with o l assms(2) have ob: "logits out ! b = example_logits m (tes ! b) (?des ! b)" by simp
  from embeddings_length[OF map_result_Inr_nth[OF t assms(2)]]
  show ?thesis by (simp add: ob length_example_logits example_logits_width)
qed

lemma generate_loop_returns:
  assumes "\<forall>row \<in> set g. length row = T \<and> (\<forall>i \<in> set row. 0 \<le> i \<and> i < int (vocab_size (config m)))"
    and "0 < T" and "n = 0 \<or> T + n \<le> Suc (max_position_embeddings (config m))"
    and "list_all (\<lambda>row. length row = desc_size (config m)) desc" and "length desc = length g"
  shows "\<exists>out. generate_loop m desc n g = Inr out"
  using assms
proof (induction n arbitrary: g T)
  case 0
  then show ?case by simp
next
  case (Suc n)
  let ?V = "vocab_size (config m)"
  from Suc.prems(3) have TP: "T \<le> max_position_embeddings (config m)" by simp
  with Suc.prems(1) have "list_all (accepted_ids m) g"
    by (simp add: list_all_iff accepted_ids_def)
  from forward_returns[OF this Suc.prems(4,5)] obtain outputs where
    f: "forward m g desc None = Inr outputs" by blast
  have "\<exists>t. next_token_of ex = Inr t \<and> 0 \<le> t \<and> t < int ?V" if "ex \<in> set (logits outputs)" for ex
  proof -
    from that forward_logits_length[OF f] obtain b where b: "b < length g" "ex = logits outputs ! b"
      by (auto simp: in_set_conv_nth)
    then have gb: "g ! b \<in> set g" by simp
    with Suc.prems(1,2) have "g ! b \<noteq> []" by auto
    then have "hd (g ! b) \<in> set (g ! b)" by simp
    with gb Suc.prems(1) have V: "0 < ?V" by force
    from forward_logits_rows[OF f b(1)] gb Suc.prems(1,2) b(2)
    have "ex \<noteq> []" "\<forall>row \<in> set ex. length row = ?V" by auto
    from next_token_range[OF this V] show ?thesis .
  qed
  then have "\<forall>ex \<in> set (logits outputs). \<exists>t. next_token_of ex = Inr t \<and> (0 \<le> t \<and> t < int ?V)"
    by blast
  from map_result_total_with[OF this] obtain nt where
    nt: "map_result next_token_of (logits outputs) = Inr nt"
    and rng: "\<forall>t \<in> set nt. 0 \<le> t \<and> t < int ?V" by blast
  let ?g' = "map2 (\<lambda>row t. row @ [t]) g nt"
  from map_result_Inr_length[OF nt] forward_logits_length[OF f]
  have ln: "length nt = length g" by simp
  have g': "\<forall>row \<in> set ?g'. length row = Suc T \<and> (\<forall>i \<in> set row. 0 \<le> i \<and> i < int ?V)"
  proof
    fix row assume "row \<in> set ?g'"
    then obtain r t where "r \<in> set g" "t \<in> set nt" "row = r @ [t]"
      by (auto simp: set_zip) (metis nth_mem ln)
    with Suc.prems(1) rng show "length row = Suc T \<and> (\<forall>i \<in> set row. 0 \<le> i \<and> i < int ?V)"
      by auto
  qed
  show ?case
  proof (cases "list_all (\<lambda>t. t = padding_idx (config m)) nt")
    case True
    with f nt show ?thesis by simp
  next
    case False
    from Suc.prems(3) have "n = 0 \<or> Suc T + n \<le> Suc (max_position_embeddings (config m))" by simp
    from Suc.IH[OF g' _ this Suc.prems(4)] Suc.prems(5) ln
    obtain out where "generate_loop m desc n ?g' = Inr out" by auto
    with f nt False show ?thesis by simp
  qed
qed

text \<open>
  Claim C4 (generation terminates). When \<open>generate\<close> returns for a prompt batch of \<open>T\<close>
  columns, it has appended \<open>k \<le> max_length\<close> columns; if \<open>k < max_length\<close>, the last
  appended column holds the padding index in every example; and no column before the
  last appended one does, so the loop stopped at the first such column. \<open>generate\<close>
  returns for every batch of non-empty prompts of ids below \<open>vocab_size\<close>, with
  descriptors of the configured size, whose rows stay within
  \<open>max_position_embeddings\<close> during the \<open>max_length\<close> iterations.
\<close>

theorem generation_terminates:
  "(generate m input_ids descriptors max_length = Inr out \<and> (\<forall>row \<in> set input_ids. length row = T) \<longrightarrow>
      (\<exists>k \<le> nat max_length. length out = length input_ids \<and>
         (\<forall>row \<in> set out. length row = T + k) \<and>
         (k < nat max_length \<longrightarrow>
            0 < k \<and> (\<forall>row \<in> set out. row ! (T + k - 1) = padding_idx (config m))) \<and>
         (\<forall>j. Suc j < k \<longrightarrow> (\<exists>row \<in> set out. row ! (T + j) \<noteq> padding_idx (config m))))) \<and>
   ((\<forall>row \<in> set input_ids.
        length row = T \<and> (\<forall>i \<in> set row. 0 \<le> i \<and> i < int (vocab_size (config m)))) \<and>
    0 < T \<and> T + nat max_length \<le> Suc (max_position_embeddings (config m)) \<and>
    list_all (\<lambda>row. length row = desc_size (config m)) descriptors \<and>
    length descriptors = length input_ids \<longrightarrow>
      (\<exists>out'. generate m input_ids descriptors max_length = Inr out'))"
proof (intro conjI impI)
  assume a: "generate m input_ids descriptors max_length = Inr out \<and>
             (\<forall>row \<in> set input_ids. length row = T)"
  then have "generate_loop m descriptors (nat max_length) input_ids = Inr out"
    by (simp add: generate_def)
  from generate_loop_spec[OF this, of T] a
  show "\<exists>k \<le> nat max_length. length out = length input_ids \<and>
         (\<forall>row \<in> set out. length row = T + k) \<and>
         (k < nat max_length \<longrightarrow>
            0 < k \<and> (\<forall>row \<in> set out. row ! (T + k - 1) = padding_idx (config m))) \<and>
         (\<forall>j. Suc j < k \<longrightarrow> (\<exists>row \<in> set out. row ! (T + j) \<noteq> padding_idx (config m)))"
    by blast
next
  assume "(\<forall>row \<in> set input_ids.
        length row = T \<and> (\<forall>i \<in> set row. 0 \<le> i \<and> i < int (vocab_size (config m)))) \<and>
    0 < T \<and> T + nat max_length \<le> Suc (max_position_embeddings (config m)) \<and>
    list_all (\<lambda>row. length row = desc_size (config m)) descriptors \<and>
    length descriptors = length input_ids"
  then show "\<exists>out'. generate m input_ids descriptors max_length = Inr out'"
    unfolding generate_def by (intro generate_loop_returns[where T=T]) simp_all
qed

lemma tiny_generate_returns: "\<exists>out. generate tiny_model [[1, 2]] [[3, 5]] 2 = Inr out"
  unfolding generate_def
  by (rule generate_loop_returns[where T=2]) (simp_all add: tiny_simps)

theorem generation_terminates_witness:
  "\<exists>out. generate tiny_model [[1, 2]] [[3, 5]] 2 = Inr out \<and> length out = 1 \<and>
     length (out ! 0) \<le> 2 + 2"
proof -
  from tiny_generate_returns obtain out where g: "generate tiny_model [[1, 2]] [[3, 5]] 2 = Inr out"
    by blast
  have "\<forall>row \<in> set [[1, 2 :: int]]. length row = 2" by simp
  with generation_terminates[of tiny_model "[[1, 2]]" "[[3, 5]]" 2 out 2] g
  obtain k where k: "k \<le> nat 2" "length out = length [[1, 2 :: int]]"
    "\<forall>row \<in> set out. length row = 2 + k"
    by blast
  from k(2) have "out ! 0 \<in> set out" by simp
  with k(3) have "length (out ! 0) = 2 + k" by blast
  with k(1,2) g show ?thesis by auto
qed

text \<open>
  Claim C10 (generation preserves the prompt). When \<open>generate\<close> returns for a prompt
  batch of \<open>T\<close> columns, the first \<open>T\<close> columns of the result are the prompt, and every
  column after them holds, for every example, the arg-max of the logits at the last
  position of the forward pass on the columns before it.
\<close>

theorem generation_preserves_prompt:
  assumes "generate m input_ids descriptors max_length = Inr out"
    and "\<forall>row \<in> set input_ids. length row = T"
  shows "length out = length input_ids \<and> map (take T) out = input_ids \<and>
         (\<exists>k. (\<forall>row \<in> set out. length row = T + k) \<and>
            (\<forall>j < k. \<exists>outputs.
               forward m (map (take (T + j)) out) descriptors None = Inr outputs \<and>
               map_result next_token_of (logits outputs) = Inr (map (\<lambda>row. row ! (T + j)) out)))"
proof -
  from assms(1) have "generate_loop m descriptors (nat max_length) input_ids = Inr out"
    by (simp add: generate_def)
  from generate_loop_spec[OF this assms(2)] show ?thesis by blast
qed

theorem generation_preserves_prompt_witness:
  "\<exists>out. generate tiny_model [[1, 2]] [[3, 5]] 2 = Inr out \<and> map (take 2) out = [[1, 2]]"
proof -
  from tiny_generate_returns obtain out where g: "generate tiny_model [[1, 2]] [[3, 5]] 2 = Inr out"
    by blast
  have "\<forall>row \<in> set [[1, 2 :: int]]. length row = 2" by simp
  from generation_preserves_prompt[OF g this] have "map (take 2) out = [[1, 2]]" by (elim conjE)
  with g show ?thesis by (intro exI[of _ out] conjI)
qed

end
